theory Spec2Isabelle
  imports Complex_Main "HOL-Library.AList" "HOL-Library.Extended_Nat" "HOL-Library.Multiset"
begin

section \<open>Strings\<close>

text \<open>
  A JavaScript string is a sequence of code units. The model takes the code units below
  256 (Latin-1), one \<^typ>\<open>char\<close> each, so \<open>length\<close> is the source's \<open>.length\<close> and
  \<open>s ! i\<close> is \<open>s[i]\<close> for an index in range.
\<close>

text \<open>
  \<open>toLowerCase\<close> maps each letter that has a lower-case form to it and leaves every
  other character: the letters A to Z and the Latin-1 capitals from U+00C0 to U+00DE
  (U+00D7, the multiplication sign, is not a letter); the lower-case form is 32 further.
\<close>

definition toLowerChar :: "char \<Rightarrow> char" where
  "toLowerChar c =
     (let n = (of_char c :: nat)
      in if (65 \<le> n \<and> n \<le> 90) \<or> (192 \<le> n \<and> n \<le> 222 \<and> n \<noteq> 215)
         then char_of (n + 32) else c)"

definition toLowerCase :: "string \<Rightarrow> string" where
  "toLowerCase s = map toLowerChar s"

text \<open>
  The white space \<open>trim\<close> removes, among the code units of the model: tab, line feed,
  vertical tab, form feed, carriage return, space and the no-break space.
\<close>

definition isWhiteSpace :: "char \<Rightarrow> bool" where
  "isWhiteSpace c \<longleftrightarrow> (of_char c :: nat) \<in> {9, 10, 11, 12, 13, 32, 160}"

definition trim :: "string \<Rightarrow> string" where
  "trim s = rev (dropWhile isWhiteSpace (rev (dropWhile isWhiteSpace s)))"

fun startsWith :: "string \<Rightarrow> string \<Rightarrow> bool" where
  "startsWith s [] = True"
| "startsWith [] (p # ps) = False"
| "startsWith (c # cs) (p # ps) = (c = p \<and> startsWith cs ps)"

definition endsWith :: "string \<Rightarrow> string \<Rightarrow> bool" where
  "endsWith s p = startsWith (rev s) (rev p)"

fun includes_str :: "string \<Rightarrow> string \<Rightarrow> bool" where
  "includes_str [] t = (t = [])"
| "includes_str (c # cs) t = (startsWith (c # cs) t \<or> includes_str cs t)"

text \<open>\<open>split_str d s\<close> is \<open>s.split(d)\<close> for a one-character separator: the empty string
  splits into one empty part.\<close>

fun split_str :: "char \<Rightarrow> string \<Rightarrow> string list" where
  "split_str d [] = [[]]"
| "split_str d (c # cs) =
     (if c = d then [] # split_str d cs
      else (case split_str d cs of [] \<Rightarrow> [[c]] | w # ws \<Rightarrow> (c # w) # ws))"

definition isDigit :: "char \<Rightarrow> bool" where
  "isDigit c \<longleftrightarrow> 48 \<le> (of_char c :: nat) \<and> (of_char c :: nat) \<le> 57"

text \<open>The test \<open>s.match(/^\d+$/)\<close>: a non-empty string of decimal digits.\<close>

definition isNumeric :: "string \<Rightarrow> bool" where
  "isNumeric s \<longleftrightarrow> s \<noteq> [] \<and> list_all isDigit s"

text \<open>\<open>orElse v d\<close> is \<open>v || d\<close> for a string-valued field \<open>v\<close> that may be missing: the
  default replaces a missing field and the empty string.\<close>

definition orElse :: "string option \<Rightarrow> string \<Rightarrow> string" where
  "orElse v d = (case v of None \<Rightarrow> d | Some s \<Rightarrow> if s = [] then d else s)"

section \<open>Data model\<close>

text \<open>
  An entry of a structure's \<open>dataElements\<close>, as the structure-detail endpoint returns it.
  The field \<open>etype\<close> is the source's \<open>type\<close>. The source reads each of the three
  fields as one that may be missing.
\<close>

record dataElement =
  name :: "string option"
  etype :: "string option"
  description :: "string option"

text \<open>
  What the code can throw: \<open>TypeError\<close> where it calls a method on a missing name,
  \<open>SyntaxError\<close> where \<open>new RegExp\<close> refuses a pattern, \<open>FetchRejected\<close> where it awaits a
  request that fails.
\<close>

datatype exception = TypeError | SyntaxError | FetchRejected

text \<open>The match types are the strings \<open>"both"\<close>, \<open>"name"\<close> and \<open>"description"\<close>.\<close>

datatype match_type = Both | Name | Description

text \<open>The record \<open>findElementsByPattern\<close> stores for a matching element.\<close>

record matchRecord =
  mr_name :: string
  mr_type :: string
  mr_description :: string
  "structure" :: string
  matchType :: match_type
  relevance :: int

record structureSummary =
  shortName :: string
  title :: string
  category :: string

record elementDetail =
  detailName :: string
  detailType :: string
  detailDescription :: string
  detailNotes :: "string option"
  valueRange :: "string option"
  dataStructures :: "string list"

text \<open>
  What \<open>fetch\<close> followed by \<open>json()\<close> can give: the promise rejects (with a message), the
  response is not \<open>ok\<close>, or it is \<open>ok\<close> and carries the parsed body.
\<close>

datatype 'a response = Rejected string | NotOk | Ok 'a

text \<open>
  What the component runs against. The data-dictionary service has one field per
  endpoint the pattern search uses; the body of a structure detail is its
  \<open>dataElements\<close> field, which may be missing. The field \<open>regexp\<close> is the language's
  regular-expression engine on the patterns \<open>containsWord\<close> builds from a word that
  holds pattern syntax: \<open>None\<close> where \<open>new RegExp\<close> throws, and the test the
  compiled pattern performs otherwise.
\<close>

record environment =
  dataelement :: "string \<Rightarrow> elementDetail response"
  structureSearch :: "string \<Rightarrow> structureSummary list response"
  structureCategory :: "string \<Rightarrow> structureSummary list response"
  datastructure :: "string \<Rightarrow> dataElement list option response"
  regexp :: "string \<Rightarrow> (string \<Rightarrow> bool) option"

datatype request =
  GetDataElement string
| SearchStructures string
| ListCategory string
| GetStructure string

section \<open>Edit distance\<close>

text \<open>
  \<open>levenshteinDistance\<close> fills the table \<open>track\<close>, \<open>str2.length + 1\<close> rows of
  \<open>str1.length + 1\<close> cells, in three loops: row 0, column 0, then every other cell
  row by row from its left, upper and upper-left neighbours. The table is a list of
  rows; a cell that still holds \<open>null\<close> is 0, the number \<open>null\<close> converts to.
\<close>

type_synonym matrix = "nat list list"

definition cell :: "matrix \<Rightarrow> nat \<Rightarrow> nat \<Rightarrow> nat" where
  "cell track j i = track ! j ! i"

definition set_cell :: "nat \<Rightarrow> nat \<Rightarrow> nat \<Rightarrow> matrix \<Rightarrow> matrix" where
  "set_cell j i v track = track[j := (track ! j)[i := v]]"

definition indicator :: "string \<Rightarrow> string \<Rightarrow> nat \<Rightarrow> nat \<Rightarrow> nat" where
  "indicator str1 str2 j i = (if str1 ! (i - 1) = str2 ! (j - 1) then 0 else 1)"

definition fill_cell :: "string \<Rightarrow> string \<Rightarrow> nat \<Rightarrow> nat \<Rightarrow> matrix \<Rightarrow> matrix" where
  "fill_cell str1 str2 j i track =
     set_cell j i
       (min (min (cell track j (i - 1) + 1) (cell track (j - 1) i + 1))
            (cell track (j - 1) (i - 1) + indicator str1 str2 j i))
       track"

definition fill_row :: "string \<Rightarrow> string \<Rightarrow> nat \<Rightarrow> matrix \<Rightarrow> matrix" where
  "fill_row str1 str2 j track = fold (fill_cell str1 str2 j) [1..<length str1 + 1] track"

definition levenshteinDistance :: "string \<Rightarrow> string \<Rightarrow> nat" where
  "levenshteinDistance str1 str2 =
     (let track0 = replicate (length str2 + 1) (replicate (length str1 + 1) 0);
          track1 = fold (\<lambda>i. set_cell 0 i i) [0..<length str1 + 1] track0;
          track2 = fold (\<lambda>j. set_cell j 0 j) [0..<length str2 + 1] track1;
          track3 = fold (fill_row str1 str2) [1..<length str2 + 1] track2
      in cell track3 (length str2) (length str1))"

text \<open>
  The recurrence the table implements, on prefix lengths: \<open>lev_rec s1 s2 j i\<close> is the
  distance between the first \<open>i\<close> characters of \<open>s1\<close> and the first \<open>j\<close> of \<open>s2\<close>.
\<close>

fun lev_rec :: "string \<Rightarrow> string \<Rightarrow> nat \<Rightarrow> nat \<Rightarrow> nat" where
  "lev_rec s1 s2 0 i = i"
| "lev_rec s1 s2 (Suc j) 0 = Suc j"
| "lev_rec s1 s2 (Suc j) (Suc i) =
     min (min (lev_rec s1 s2 (Suc j) i + 1) (lev_rec s1 s2 j (Suc i) + 1))
         (lev_rec s1 s2 j i + (if s1 ! i = s2 ! j then 0 else 1))"

text \<open>Loop invariants of the three loops.\<close>

definition well_formed :: "nat \<Rightarrow> nat \<Rightarrow> matrix \<Rightarrow> bool" where
  "well_formed m n track \<longleftrightarrow> length track = m + 1 \<and> (\<forall>j \<le> m. length (track ! j) = n + 1)"

definition row0_done :: "nat \<Rightarrow> nat \<Rightarrow> nat \<Rightarrow> matrix \<Rightarrow> bool" where
  "row0_done m n k track \<longleftrightarrow> well_formed m n track \<and> (\<forall>i < k. cell track 0 i = i)"

definition col0_done :: "nat \<Rightarrow> nat \<Rightarrow> nat \<Rightarrow> matrix \<Rightarrow> bool" where
  "col0_done m n k track \<longleftrightarrow>
     well_formed m n track \<and> (\<forall>i \<le> n. cell track 0 i = i) \<and> (\<forall>j < k. cell track j 0 = j)"

definition rows_done :: "string \<Rightarrow> string \<Rightarrow> nat \<Rightarrow> matrix \<Rightarrow> bool" where
  "rows_done s1 s2 k track \<longleftrightarrow>
     well_formed (length s2) (length s1) track \<and>
     (\<forall>j < k. \<forall>i \<le> length s1. cell track j i = lev_rec s1 s2 j i) \<and>
     (\<forall>j \<le> length s2. cell track j 0 = j)"

definition cells_done :: "string \<Rightarrow> string \<Rightarrow> nat \<Rightarrow> nat \<Rightarrow> matrix \<Rightarrow> bool" where
  "cells_done s1 s2 j k track \<longleftrightarrow>
     rows_done s1 s2 j track \<and> (\<forall>i < k. cell track j i = lev_rec s1 s2 j i)"

section \<open>Token-based relevance (the first \<open>calculateRelevance\<close>, two arguments)\<close>

text \<open>
  \<open>bestPartDistance\<close> is the inner loop over the element's parts, started at \<open>Infinity\<close>.
  Scores are JavaScript numbers; the model computes them as rationals, which is exact
  for the additions and for the divisions by 1 and 2.
\<close>

definition bestPartDistance :: "string list \<Rightarrow> string \<Rightarrow> enat" where
  "bestPartDistance elementParts searchPart =
     fold (\<lambda>elementPart best. min best (enat (levenshteinDistance searchPart elementPart)))
       elementParts \<infinity>"

definition partScore :: "enat \<Rightarrow> rat" where
  "partScore best =
     (if best = 0 then 100
      else if best \<le> 2 then 50 / of_nat (the_enat best)
      else 0)"

definition calculateRelevance_tokens :: "dataElement \<Rightarrow> string \<Rightarrow> exception + rat" where
  "calculateRelevance_tokens element searchTerm =
     (case name element of
        None \<Rightarrow> Inl TypeError
      | Some rawName \<Rightarrow>
          (let elementName = toLowerCase rawName;
               searchTermLower = toLowerCase searchTerm;
               elementParts = split_str CHR ''_'' elementName;
               searchParts = split_str CHR ''_'' searchTermLower
           in if elementName = searchTermLower then Inr 1000
              else
                (let score1 = fold (\<lambda>searchPart score.
                                score + partScore (bestPartDistance elementParts searchPart))
                              searchParts 0;
                     score2 = (if startsWith elementName (searchTermLower @ ''_'')
                               then score1 + 500 else score1);
                     score3 = (if isNumeric elementName \<or> isNumeric searchTermLower
                               then score2 * (1 / 10) else score2);
                     score4 = (if \<not> includes_str elementName searchTermLower
                               then score3 * (1 / 10) else score3)
                 in Inr score4)))"

section \<open>Word-boundary matching\<close>

text \<open>
  \<open>containsWord text word\<close> tests \<open>text\<close> against the pattern \<open>\bword\b\<close>, case-insensitive,
  which the source builds from the word as it is. For a word without pattern syntax the
  pattern is the word itself between two boundary assertions, a boundary being a
  position with a word character (a letter, a digit or the underscore) on exactly one
  side. For a word with pattern syntax the engine of the environment decides: the
  constructor throws, or the compiled pattern is tested.
\<close>

definition isSyntaxChar :: "char \<Rightarrow> bool" where
  "isSyntaxChar c \<longleftrightarrow> c \<in> set (''^$.*+?()[]{}|'' @ [CHR 0x5C])"

definition isWordChar :: "char \<Rightarrow> bool" where
  "isWordChar c \<longleftrightarrow>
     (let n = (of_char c :: nat)
      in (48 \<le> n \<and> n \<le> 57) \<or> (65 \<le> n \<and> n \<le> 90) \<or> n = 95 \<or> (97 \<le> n \<and> n \<le> 122))"

definition atBoundary :: "string \<Rightarrow> nat \<Rightarrow> bool" where
  "atBoundary text p \<longleftrightarrow>
     (0 < p \<and> isWordChar (text ! (p - 1))) \<noteq> (p < length text \<and> isWordChar (text ! p))"

definition matchesAt :: "string \<Rightarrow> string \<Rightarrow> nat \<Rightarrow> bool" where
  "matchesAt text word p \<longleftrightarrow>
     p + length word \<le> length text \<and>
     atBoundary text p \<and>
     toLowerCase (take (length word) (drop p text)) = toLowerCase word \<and>
     atBoundary text (p + length word)"

definition containsLiteralWord :: "string \<Rightarrow> string \<Rightarrow> bool" where
  "containsLiteralWord text word = list_ex (matchesAt text word) [0..<length text + 1]"

definition containsWord ::
  "(string \<Rightarrow> (string \<Rightarrow> bool) option) \<Rightarrow> string \<Rightarrow> string \<Rightarrow> exception + bool" where
  "containsWord rx text word =
     (if list_ex isSyntaxChar word then
        (case rx word of None \<Rightarrow> Inl SyntaxError | Some test \<Rightarrow> Inr (test text))
      else Inr (containsLiteralWord text word))"

text \<open>The search term and its singular or plural form.\<close>

definition searchWords :: "string \<Rightarrow> string list" where
  "searchWords searchTerm =
     [searchTerm, if endsWith searchTerm ''s'' then butlast searchTerm else searchTerm @ ''s'']"

text \<open>
  \<open>words.some(word => containsWord(text, word))\<close>: the words are tried in order, up to
  the first that matches or throws.
\<close>

fun someWord ::
  "(string \<Rightarrow> (string \<Rightarrow> bool) option) \<Rightarrow> string \<Rightarrow> string list \<Rightarrow> exception + bool" where
  "someWord rx text [] = Inr False"
| "someWord rx text (word # ws) =
     (case containsWord rx text word of
        Inl ex \<Rightarrow> Inl ex
      | Inr found \<Rightarrow> if found then Inr True else someWord rx text ws)"

definition matchesWords ::
  "(string \<Rightarrow> (string \<Rightarrow> bool) option) \<Rightarrow> string \<Rightarrow> string \<Rightarrow> exception + bool" where
  "matchesWords rx text searchTerm = someWord rx text (searchWords searchTerm)"

text \<open>
  The words of a text in the sense of the boundary assertion: its maximal runs of word
  characters.
\<close>

function wordsOf :: "string \<Rightarrow> string list" where
  "wordsOf [] = []"
| "wordsOf (c # cs) =
     (if isWordChar c then takeWhile isWordChar (c # cs) # wordsOf (dropWhile isWordChar cs)
      else wordsOf cs)"
  by pat_completeness auto
termination
  by (relation "measure length") (auto simp: length_dropWhile_le less_Suc_eq_le)

text \<open>
  A whole delimited word of a text: a non-empty run of word characters with no word
  character next to it on either side.
\<close>

definition delimitedWord :: "string \<Rightarrow> string \<Rightarrow> bool" where
  "delimitedWord str m \<longleftrightarrow>
     m \<noteq> [] \<and> list_all isWordChar m \<and>
     (\<exists>pre post. str = pre @ m @ post \<and>
        (pre = [] \<or> \<not> isWordChar (last pre)) \<and> (post = [] \<or> \<not> isWordChar (hd post)))"

section \<open>Match aggregation (the second \<open>calculateRelevance\<close>, three arguments)\<close>

text \<open>
  The scorer calls \<open>element.name.toLowerCase()\<close> without the guard the scan puts on the
  name: on an element without a name it throws.
\<close>

definition calculateRelevance_match ::
  "dataElement \<Rightarrow> string \<Rightarrow> match_type \<Rightarrow> exception + int" where
  "calculateRelevance_match element searchTerm mt =
     (case name element of
        None \<Rightarrow> Inl TypeError
      | Some elementName \<Rightarrow>
          (let score0 = (case mt of Both \<Rightarrow> 100 | Name \<Rightarrow> 75 | Description \<Rightarrow> 25);
               score1 = (if toLowerCase elementName = searchTerm then score0 + 50 else score0);
               score2 = (if startsWith (toLowerCase elementName) searchTerm
                         then score1 + 25 else score1);
               lengthDiff = \<bar>int (length elementName) - int (length searchTerm)\<bar>
           in Inr (score2 - min lengthDiff 10)))"

definition classify :: "bool \<Rightarrow> bool \<Rightarrow> match_type" where
  "classify nameMatch descMatch =
     (if nameMatch \<and> descMatch then Both else if nameMatch then Name else Description)"

text \<open>
  The body of the loop over a structure's elements, up to the call of \<open>set\<close>: the record
  to store for an element that matches, \<open>None\<close> for one that does not, the exception if
  one of the two tests or the scorer throws. The record is built once the scorer has
  returned, so only for an element that has a name, and \<open>mr_name\<close> is that name.
\<close>

definition matchRecordFor ::
  "(string \<Rightarrow> (string \<Rightarrow> bool) option) \<Rightarrow> string \<Rightarrow> string \<Rightarrow> dataElement \<Rightarrow>
   exception + matchRecord option" where
  "matchRecordFor rx searchTerm sn element =
     (let elementName = toLowerCase (orElse (name element) []);
          elementDesc = toLowerCase (orElse (description element) [])
      in case matchesWords rx elementName searchTerm of
           Inl ex \<Rightarrow> Inl ex
         | Inr nameMatch \<Rightarrow>
             (case matchesWords rx elementDesc searchTerm of
                Inl ex \<Rightarrow> Inl ex
              | Inr descMatch \<Rightarrow>
                  if nameMatch \<or> descMatch then
                    (case calculateRelevance_match element searchTerm
                            (classify nameMatch descMatch) of
                       Inl ex \<Rightarrow> Inl ex
                     | Inr score \<Rightarrow>
                         Inr (Some \<lparr>mr_name = the (name element),
                                    mr_type = orElse (etype element) ''Unknown'',
                                    mr_description =
                                      orElse (description element) ''No description available'',
                                    structure = sn,
                                    matchType = classify nameMatch descMatch,
                                    relevance = score\<rparr>))
                  else Inr None))"

text \<open>
  \<open>foundElements\<close> is a \<open>Map\<close> keyed by element name. A \<open>Map\<close> iterates in insertion
  order and \<open>set\<close> on a present key replaces the value where it stands: an association
  list under \<open>AList.update\<close>. The two nested \<open>forEach\<close> loops stop at the first exception,
  with the entries written until then.
\<close>

type_synonym found_map = "(string \<times> matchRecord) list"

definition scanElement ::
  "(string \<Rightarrow> (string \<Rightarrow> bool) option) \<Rightarrow> string \<Rightarrow> string \<Rightarrow> dataElement \<Rightarrow> found_map \<Rightarrow>
   exception + found_map" where
  "scanElement rx searchTerm sn element foundElements =
     (case matchRecordFor rx searchTerm sn element of
        Inl ex \<Rightarrow> Inl ex
      | Inr None \<Rightarrow> Inr foundElements
      | Inr (Some r) \<Rightarrow> Inr (AList.update (the (name element)) r foundElements))"

fun scanElements ::
  "(string \<Rightarrow> (string \<Rightarrow> bool) option) \<Rightarrow> string \<Rightarrow> string \<Rightarrow> dataElement list \<Rightarrow> found_map \<Rightarrow>
   found_map \<times> exception option" where
  "scanElements rx searchTerm sn [] foundElements = (foundElements, None)"
| "scanElements rx searchTerm sn (element # elements) foundElements =
     (case scanElement rx searchTerm sn element foundElements of
        Inl ex \<Rightarrow> (foundElements, Some ex)
      | Inr found \<Rightarrow> scanElements rx searchTerm sn elements found)"

fun scanStructures ::
  "(string \<Rightarrow> (string \<Rightarrow> bool) option) \<Rightarrow> string \<Rightarrow> (string \<times> dataElement list) list \<Rightarrow>
   found_map \<Rightarrow> found_map \<times> exception option" where
  "scanStructures rx searchTerm [] foundElements = (foundElements, None)"
| "scanStructures rx searchTerm (batchResult # batchResults) foundElements =
     (case scanElements rx searchTerm (fst batchResult) (snd batchResult) foundElements of
        (found, Some ex) \<Rightarrow> (found, Some ex)
      | (found, None) \<Rightarrow> scanStructures rx searchTerm batchResults found)"

text \<open>
  \<open>sort\<close> with the comparator \<open>b.relevance - a.relevance\<close>. The language requires the
  sort to be stable, and the relevances are integers, so the result is the stable sort by
  descending relevance, whatever algorithm the engine runs.
\<close>

definition sortByRelevance :: "matchRecord list \<Rightarrow> matchRecord list" where
  "sortByRelevance rs = sort_key (\<lambda>r. - relevance r) rs"

section \<open>Batch retrieval: \<open>findElementsByPattern\<close>\<close>

record loading_state =
  isLoading :: bool
  currentBatch :: nat
  totalBatches :: nat
  matchesFound :: nat

text \<open>
  The locals of one call, the requests it has issued, the loading state it reports and
  the exception its \<open>try\<close> block has thrown, if any.
\<close>

record retrieval =
  foundElements :: found_map
  structureCache :: "string \<rightharpoonup> dataElement list"
  requests :: "request list"
  progress :: loading_state
  thrown :: "exception option"

text \<open>\<open>[...new Set(xs)]\<close>: the first occurrence of each value, in order.\<close>

definition uniqueInOrder :: "'a list \<Rightarrow> 'a list" where
  "uniqueInOrder xs = fold (\<lambda>x seen. if x \<in> set seen then seen else seen @ [x]) xs []"

definition batchSize :: nat where
  "batchSize = 25"

function batchesOf :: "'a list \<Rightarrow> 'a list list" where
  "batchesOf xs = (if xs = [] then [] else take batchSize xs # batchesOf (drop batchSize xs))"
  by pat_completeness auto
termination
  by (relation "measure length") (auto simp: batchSize_def)

declare batchesOf.simps [simp del]

text \<open>
  One callback of \<open>batch.map\<close>. Every callback of a batch runs to its first \<open>await\<close>
  before any response arrives, so each reads the cache as it stands when the batch
  starts: \<open>fetchStructure\<close> is what the callback returns, \<open>storeStructure\<close> its write to
  the cache, \<open>batchRequests\<close> the fetches the batch issues. The scan of the batch's
  results follows; an exception in it leaves the loop over the batches. The pause
  between two batches changes no state and has no counterpart here.
\<close>

definition fetchStructure ::
  "environment \<Rightarrow> (string \<rightharpoonup> dataElement list) \<Rightarrow> string \<Rightarrow> (string \<times> dataElement list) option" where
  "fetchStructure env cache sn =
     (case cache sn of
        Some elements \<Rightarrow> Some (sn, elements)
      | None \<Rightarrow>
          (case datastructure env sn of
             Ok dataElements \<Rightarrow> Some (sn, case dataElements of None \<Rightarrow> [] | Some es \<Rightarrow> es)
           | NotOk \<Rightarrow> None
           | Rejected msg \<Rightarrow> None))"

definition storeStructure ::
  "environment \<Rightarrow> (string \<rightharpoonup> dataElement list) \<Rightarrow> string \<Rightarrow>
   (string \<rightharpoonup> dataElement list) \<Rightarrow> (string \<rightharpoonup> dataElement list)" where
  "storeStructure env cache0 sn cache =
     (case cache0 sn of
        Some elements \<Rightarrow> cache
      | None \<Rightarrow>
          (case datastructure env sn of
             Ok (Some es) \<Rightarrow> if length es < 1000 then cache(sn \<mapsto> es) else cache
           | Ok None \<Rightarrow> cache
           | NotOk \<Rightarrow> cache
           | Rejected msg \<Rightarrow> cache))"

definition batchRequests ::
  "(string \<rightharpoonup> dataElement list) \<Rightarrow> string list \<Rightarrow> request list" where
  "batchRequests cache batch = map GetStructure (filter (\<lambda>sn. cache sn = None) batch)"

definition processBatch ::
  "environment \<Rightarrow> string \<Rightarrow> nat \<Rightarrow> string list \<Rightarrow> retrieval \<Rightarrow> retrieval" where
  "processBatch env searchTerm batchIndex batch st =
     (let cache0 = structureCache st;
          batchResults = List.map_filter (fetchStructure env cache0) batch;
          scanned = scanStructures (regexp env) searchTerm batchResults (foundElements st)
      in st\<lparr>progress := (progress st)\<lparr>currentBatch := batchIndex + 1,
                                         matchesFound := length (foundElements st)\<rparr>,
             requests := requests st @ batchRequests cache0 batch,
             structureCache := fold (storeStructure env cache0) batch cache0,
             foundElements := fst scanned,
             thrown := snd scanned\<rparr>)"

fun processBatches ::
  "environment \<Rightarrow> string \<Rightarrow> nat \<Rightarrow> string list list \<Rightarrow> retrieval \<Rightarrow> retrieval" where
  "processBatches env searchTerm batchIndex [] st = st"
| "processBatches env searchTerm batchIndex (batch # batches) st =
     (let st1 = processBatch env searchTerm batchIndex batch st
      in case thrown st1 of
           None \<Rightarrow> processBatches env searchTerm (batchIndex + 1) batches st1
         | Some ex \<Rightarrow> st1)"

text \<open>
  Discovery: the keyword search and the listing of the category \<open>cognitive_task\<close>. A
  rejected fetch throws; a response that is not \<open>ok\<close> is left out.
\<close>

definition okBody :: "'a response \<Rightarrow> 'a option" where
  "okBody r = (case r of Ok x \<Rightarrow> Some x | NotOk \<Rightarrow> None | Rejected msg \<Rightarrow> None)"

definition isRejected :: "'a response \<Rightarrow> bool" where
  "isRejected r = (case r of Rejected msg \<Rightarrow> True | NotOk \<Rightarrow> False | Ok x \<Rightarrow> False)"

definition discover :: "environment \<Rightarrow> string \<Rightarrow> string list option" where
  "discover env searchTerm =
     (let responses = [structureSearch env searchTerm, structureCategory env ''cognitive_task'']
      in if list_ex isRejected responses then None
         else Some (uniqueInOrder (map shortName (concat (List.map_filter okBody responses)))))"

text \<open>
  \<open>findElementsByPattern\<close> in two parts: \<open>fep_start\<close> is the first \<open>setLoadingState\<close>,
  before the discovery requests are awaited; \<open>fep_rest\<close> is the rest of the call, from
  the loading state it finds when it resumes. Where discovery or the scan throws, the
  \<open>catch\<close> branch returns the values found so far, unsorted.
\<close>

definition fep_start :: "loading_state \<Rightarrow> loading_state" where
  "fep_start prev =
     prev\<lparr>isLoading := True, currentBatch := 0, totalBatches := 0, matchesFound := 0\<rparr>"

definition fep_rest ::
  "environment \<Rightarrow> string \<Rightarrow> loading_state \<Rightarrow> matchRecord list \<times> retrieval" where
  "fep_rest env term prev =
     (let searchTerm = toLowerCase term;
          st0 = \<lparr>foundElements = [], structureCache = Map.empty,
                 requests = [SearchStructures searchTerm, ListCategory ''cognitive_task''],
                 progress = prev, thrown = None\<rparr>
      in case discover env searchTerm of
           None \<Rightarrow>
             (map snd (foundElements st0),
              st0\<lparr>progress := (progress st0)\<lparr>isLoading := False\<rparr>,
                  thrown := Some FetchRejected\<rparr>)
         | Some uniqueStructures \<Rightarrow>
             (let batches = batchesOf uniqueStructures;
                  st1 = st0\<lparr>progress := (progress st0)\<lparr>totalBatches := length batches\<rparr>\<rparr>;
                  st2 = processBatches env searchTerm 0 batches st1;
                  st3 = st2\<lparr>progress := (progress st2)\<lparr>isLoading := False\<rparr>\<rparr>
              in case thrown st2 of
                   None \<Rightarrow> (sortByRelevance (map snd (foundElements st3)), st3)
                 | Some ex \<Rightarrow> (map snd (foundElements st3), st3)))"

definition findElementsByPattern ::
  "environment \<Rightarrow> string \<Rightarrow> loading_state \<Rightarrow> matchRecord list \<times> retrieval" where
  "findElementsByPattern env term prev = fep_rest env term (fep_start prev)"

text \<open>
  The elements-by-structure mapping one call retrieves when no scan throws (the results
  of its batches, in order), the outcome of the loop body on each of its elements, and
  the writes to \<open>foundElements\<close> a scan of such a mapping makes, in order, up to its
  first exception.
\<close>

fun retrievedBatches ::
  "environment \<Rightarrow> (string \<rightharpoonup> dataElement list) \<Rightarrow> string list list \<Rightarrow>
   (string \<times> dataElement list) list" where
  "retrievedBatches env cache [] = []"
| "retrievedBatches env cache (batch # batches) =
     List.map_filter (fetchStructure env cache) batch
       @ retrievedBatches env (fold (storeStructure env cache) batch cache) batches"

definition elementsByStructure ::
  "environment \<Rightarrow> string \<Rightarrow> (string \<times> dataElement list) list" where
  "elementsByStructure env term =
     (case discover env (toLowerCase term) of
        None \<Rightarrow> []
      | Some uniqueStructures \<Rightarrow> retrievedBatches env Map.empty (batchesOf uniqueStructures))"

definition attempts ::
  "(string \<Rightarrow> (string \<Rightarrow> bool) option) \<Rightarrow> string \<Rightarrow> (string \<times> dataElement list) list \<Rightarrow>
   (exception + matchRecord option) list" where
  "attempts rx searchTerm batchResults =
     concat (map (\<lambda>batchResult. map (matchRecordFor rx searchTerm (fst batchResult))
                                    (snd batchResult))
               batchResults)"

definition written :: "exception + matchRecord option \<Rightarrow> (string \<times> matchRecord) option" where
  "written a = (case a of Inl ex \<Rightarrow> None | Inr None \<Rightarrow> None | Inr (Some r) \<Rightarrow> Some (mr_name r, r))"

definition writes ::
  "(string \<Rightarrow> (string \<Rightarrow> bool) option) \<Rightarrow> string \<Rightarrow> (string \<times> dataElement list) list \<Rightarrow>
   (string \<times> matchRecord) list" where
  "writes rx searchTerm batchResults =
     List.map_filter written (takeWhile (\<lambda>a. \<not> isl a) (attempts rx searchTerm batchResults))"

text \<open>
  The invariant of \<open>foundElements\<close>: one entry per name, each keyed by its record's
  name and scored at least 15.
\<close>

definition found_ok :: "found_map \<Rightarrow> bool" where
  "found_ok found \<longleftrightarrow>
     distinct (map fst found) \<and> (\<forall>(k, r) \<in> set found. mr_name r = k \<and> 15 \<le> relevance r)"

section \<open>Search orchestration: \<open>handlePartialSearch\<close>\<close>

record search_state =
  searchTerm :: string
  loading :: bool
  error :: "string option"
  element :: "elementDetail option"
  recentSearches :: "string list"
  matchingElements :: "matchRecord list"
  isPartialSearch :: bool
  loadingState :: loading_state

text \<open>
  A handler reads \<open>searchTerm\<close> and \<open>recentSearches\<close> from the render that created it,
  and writes through the state setters: a running search keeps the values it captured
  when it started.
\<close>

record closure =
  c_searchTerm :: string
  c_recentSearches :: "string list"

definition capture :: "search_state \<Rightarrow> closure" where
  "capture st = \<lparr>c_searchTerm = searchTerm st, c_recentSearches = recentSearches st\<rparr>"

definition remember :: "closure \<Rightarrow> string \<Rightarrow> search_state \<Rightarrow> search_state" where
  "remember cl t st =
     (if t \<in> set (c_recentSearches cl) then st
      else st\<lparr>recentSearches := take 10 (t # recentSearches st)\<rparr>)"

text \<open>
  The parts of one call, cut where it awaits: \<open>hps_begin\<close> runs up to the exact lookup;
  \<open>hps_directHit\<close>, \<open>hps_failed\<close> and \<open>hps_directMiss\<close> continue from its response;
  \<open>hps_retrieved\<close> is the retrieval and what follows it.
\<close>

definition hps_begin :: "search_state \<Rightarrow> search_state" where
  "hps_begin st =
     st\<lparr>loading := True, error := None, isPartialSearch := True, matchingElements := [],
        element := None\<rparr>"

definition hps_directHit :: "closure \<Rightarrow> elementDetail \<Rightarrow> search_state \<Rightarrow> search_state" where
  "hps_directHit cl data st =
     (remember cl (trim (c_searchTerm cl))
        (st\<lparr>element := Some data, isPartialSearch := False\<rparr>))\<lparr>loading := False\<rparr>"

definition hps_failed :: "string \<Rightarrow> search_state \<Rightarrow> search_state" where
  "hps_failed msg st =
     st\<lparr>error := Some (''Error searching for elements: '' @ msg), loading := False\<rparr>"

definition noMatchMessage :: "string \<Rightarrow> string" where
  "noMatchMessage q = ''No data elements found containing \"'' @ q @ ''\"''"

definition hps_directMiss :: "search_state \<Rightarrow> search_state" where
  "hps_directMiss st = st\<lparr>loadingState := fep_start (loadingState st)\<rparr>"

definition hps_retrieved ::
  "environment \<Rightarrow> closure \<Rightarrow> search_state \<Rightarrow> search_state \<times> request list" where
  "hps_retrieved env cl st =
     (let r = fep_rest env (trim (c_searchTerm cl)) (loadingState st);
          matching = fst r;
          st1 = st\<lparr>loadingState := progress (snd r)\<rparr>
      in if matching = [] then
           (st1\<lparr>error := Some (noMatchMessage (c_searchTerm cl)), loading := False\<rparr>,
            requests (snd r))
         else
           (let st2 = st1\<lparr>matchingElements := matching\<rparr>
            in if length matching = 1 then
                 (case dataelement env (mr_name (hd matching)) of
                    Ok data \<Rightarrow>
                      ((remember cl (mr_name (hd matching))
                          (st2\<lparr>element := Some data, isPartialSearch := False\<rparr>))
                         \<lparr>loading := False\<rparr>,
                       requests (snd r) @ [GetDataElement (mr_name (hd matching))])
                  | NotOk \<Rightarrow>
                      (st2\<lparr>loading := False\<rparr>,
                       requests (snd r) @ [GetDataElement (mr_name (hd matching))])
                  | Rejected msg \<Rightarrow>
                      (st2\<lparr>loading := False\<rparr>,
                       requests (snd r) @ [GetDataElement (mr_name (hd matching))]))
               else (st2\<lparr>loading := False\<rparr>, requests (snd r))))"

definition handlePartialSearch ::
  "environment \<Rightarrow> search_state \<Rightarrow> search_state \<times> request list" where
  "handlePartialSearch env st =
     (if trim (searchTerm st) = [] then (st, [])
      else
        (let cl = capture st;
             st1 = hps_begin st
         in case dataelement env (trim (searchTerm st)) of
              Ok data \<Rightarrow> (hps_directHit cl data st1, [GetDataElement (trim (searchTerm st))])
            | Rejected msg \<Rightarrow> (hps_failed msg st1, [GetDataElement (trim (searchTerm st))])
            | NotOk \<Rightarrow>
                (let (st2, reqs) = hps_retrieved env cl (hps_directMiss st1)
                 in (st2, GetDataElement (trim (searchTerm st)) # reqs))))"

definition handleSearch :: "environment \<Rightarrow> search_state \<Rightarrow> search_state \<times> request list" where
  "handleSearch env st =
     (if trim (searchTerm st) = [] then (st, []) else handlePartialSearch env st)"

text \<open>
  The condition under which the page renders the list of matches, under a heading that
  quotes the search term.
\<close>

definition listShown :: "search_state \<Rightarrow> bool" where
  "listShown st \<longleftrightarrow> isPartialSearch st \<and> matchingElements st \<noteq> []"

text \<open>
  Two overlapping searches. Search A starts on the query \<open>qA\<close> (not blank), its exact
  lookup misses and it enters retrieval. Before its discovery requests are answered the
  query is changed to \<open>qB\<close> and search B starts; B runs to its end, whatever its course:
  \<open>overtakingSearch\<close> is the state B leaves. Then A's responses arrive and A runs to its
  end: \<open>overlappingSearches\<close> is the final state.
\<close>

definition overtakingSearch ::
  "environment \<Rightarrow> string \<Rightarrow> string \<Rightarrow> search_state \<Rightarrow> search_state" where
  "overtakingSearch env qA qB st =
     (let sA = st\<lparr>searchTerm := qA\<rparr>;
          s1 = hps_directMiss (hps_begin sA);
          sB = s1\<lparr>searchTerm := qB\<rparr>
      in fst (handlePartialSearch env sB))"

definition overlappingSearches ::
  "environment \<Rightarrow> string \<Rightarrow> string \<Rightarrow> search_state \<Rightarrow> search_state" where
  "overlappingSearches env qA qB st =
     (let sA = st\<lparr>searchTerm := qA\<rparr>;
          clA = capture sA;
          s2 = overtakingSearch env qA qB st
      in fst (hps_retrieved env clA s2))"

section \<open>The full-text search component: \<open>handleSearch\<close> of the first component\<close>

record searchHit =
  hit_name :: string
  hit_type :: "string option"
  hit_dataStructures :: "structureSummary list option"
  hit_score :: "rat option"

record fullTextMatch =
  ft_name :: string
  ft_type :: string
  ft_description :: string
  ft_notes :: "string option"
  ft_dataStructures :: "structureSummary list"
  total_data_structures :: nat
  ft_score :: "rat option"
  searchTerms :: "string list"
  ft_matchType :: match_type

record fulltext_network =
  ft_dataelement :: "string \<Rightarrow> elementDetail response"
  fullTextSearch :: "string \<Rightarrow> searchHit list response"

record fulltext_state =
  ft_searchTerm :: string
  ft_loading :: bool
  ft_error :: "string option"
  ft_element :: "elementDetail option"
  ft_matchingElements :: "fullTextMatch list"
  ft_isPartialSearch :: bool
  ft_recentSearches :: "string list"

datatype fulltext_request = FtGetDataElement string | FtSearchFull string

definition updateRecentSearches :: "string \<Rightarrow> fulltext_state \<Rightarrow> fulltext_state" where
  "updateRecentSearches newTerm st =
     (if newTerm \<in> set (ft_recentSearches st) then st
      else st\<lparr>ft_recentSearches := take 10 (newTerm # ft_recentSearches st)\<rparr>)"

definition elementDetails ::
  "fulltext_network \<Rightarrow> string \<Rightarrow> searchHit \<Rightarrow> fullTextMatch option" where
  "elementDetails net searchQuery hit =
     (case ft_dataelement net (hit_name hit) of
        Ok fullData \<Rightarrow>
          Some \<lparr>ft_name = hit_name hit,
                ft_type = (if detailType fullData \<noteq> [] then detailType fullData
                           else orElse (hit_type hit) ''Text''),
                ft_description =
                  (if detailDescription fullData \<noteq> [] then detailDescription fullData
                   else ''No description available''),
                ft_notes = detailNotes fullData,
                ft_dataStructures = (case hit_dataStructures hit of None \<Rightarrow> [] | Some ds \<Rightarrow> ds),
                total_data_structures =
                  (case hit_dataStructures hit of None \<Rightarrow> 0 | Some ds \<Rightarrow> length ds),
                ft_score = hit_score hit,
                searchTerms = [searchQuery],
                ft_matchType =
                  (if includes_str (toLowerCase (hit_name hit)) (toLowerCase searchQuery)
                   then Name else Description)\<rparr>
      | NotOk \<Rightarrow> None
      | Rejected msg \<Rightarrow> None)"

definition scoreKey :: "fullTextMatch \<Rightarrow> rat" where
  "scoreKey m = (case ft_score m of None \<Rightarrow> 0 | Some x \<Rightarrow> x)"

definition ft_failed :: "string \<Rightarrow> fulltext_state \<Rightarrow> fulltext_state" where
  "ft_failed msg st =
     st\<lparr>ft_error := Some (''Error searching for elements: '' @ msg), ft_loading := False\<rparr>"

definition handleSearch_fulltext ::
  "fulltext_network \<Rightarrow> fulltext_state \<Rightarrow> fulltext_state \<times> fulltext_request list" where
  "handleSearch_fulltext net st =
     (if trim (ft_searchTerm st) = [] then (st, [])
      else
        (let q = trim (ft_searchTerm st);
             st1 = st\<lparr>ft_loading := True, ft_error := None, ft_element := None,
                      ft_matchingElements := [], ft_isPartialSearch := False\<rparr>
         in case ft_dataelement net q of
              Ok data \<Rightarrow>
                ((updateRecentSearches q (st1\<lparr>ft_element := Some data\<rparr>))\<lparr>ft_loading := False\<rparr>,
                 [FtGetDataElement q])
            | Rejected msg \<Rightarrow> (ft_failed msg st1, [FtGetDataElement q])
            | NotOk \<Rightarrow>
                (case fullTextSearch net q of
                   Rejected msg \<Rightarrow> (ft_failed msg st1, [FtGetDataElement q, FtSearchFull q])
                 | NotOk \<Rightarrow>
                     (ft_failed ''Failed to fetch matching elements'' st1,
                      [FtGetDataElement q, FtSearchFull q])
                 | Ok results \<Rightarrow>
                     if results = [] then
                       (st1\<lparr>ft_error := Some (noMatchMessage (ft_searchTerm st)),
                            ft_loading := False\<rparr>,
                        [FtGetDataElement q, FtSearchFull q])
                     else
                       (let validElements =
                              sort_key (\<lambda>m. - scoreKey m)
                                (List.map_filter (elementDetails net q) results)
                        in ((updateRecentSearches q
                               (st1\<lparr>ft_matchingElements := validElements,
                                    ft_isPartialSearch := True\<rparr>))\<lparr>ft_loading := False\<rparr>,
                            [FtGetDataElement q, FtSearchFull q]
                              @ map (\<lambda>hit. FtGetDataElement (hit_name hit)) results)))))"

section \<open>A small catalog\<close>

text \<open>
  Two finger-tapping structures that share the element \<open>tap_count\<close>; the exact lookup
  knows no element, and the engine refuses every pattern it is asked to compile (the
  words searched below hold no pattern syntax). The catalog serves as the concrete input
  of the examples below.
\<close>

definition demo_elements :: "string \<Rightarrow> dataElement list option response" where
  "demo_elements sn =
     (if sn = ''ft01'' then
        Ok (Some [\<lparr>name = Some ''tap_count'', etype = Some ''Integer'',
                    description = Some ''Number of taps''\<rparr>,
                  \<lparr>name = Some ''subjectkey'', etype = Some ''GUID'',
                    description = Some ''Subject GUID''\<rparr>])
      else if sn = ''ft02'' then
        Ok (Some [\<lparr>name = Some ''taps'', etype = None, description = None\<rparr>,
                  \<lparr>name = Some ''tap_count'', etype = Some ''Integer'',
                    description = Some ''Count per tap''\<rparr>])
      else NotOk)"

definition demo_env :: environment where
  "demo_env =
     \<lparr>dataelement = (\<lambda>n. NotOk),
      structureSearch = (\<lambda>q. Ok [\<lparr>shortName = ''ft01'', title = ''Finger tapping'',
                                    category = ''cognitive_task''\<rparr>]),
      structureCategory = (\<lambda>c. Ok [\<lparr>shortName = ''ft01'', title = ''Finger tapping'',
                                      category = ''cognitive_task''\<rparr>,
                                    \<lparr>shortName = ''ft02'', title = ''Finger tapping 2'',
                                      category = ''cognitive_task''\<rparr>]),
      datastructure = demo_elements,
      regexp = (\<lambda>word. None)\<rparr>"

text \<open>
  The same catalog where the structure \<open>ft02\<close> lists a third element, which has a
  description and no name.
\<close>

definition nameless_elements :: "string \<Rightarrow> dataElement list option response" where
  "nameless_elements sn =
     (if sn = ''ft02'' then
        Ok (Some [\<lparr>name = Some ''taps'', etype = None, description = None\<rparr>,
                  \<lparr>name = Some ''tap_count'', etype = Some ''Integer'',
                    description = Some ''Count per tap''\<rparr>,
                  \<lparr>name = None, etype = None, description = Some ''Taps''\<rparr>])
      else demo_elements sn)"

definition nameless_env :: environment where
  "nameless_env = demo_env\<lparr>datastructure := nameless_elements\<rparr>"

definition idle_loading :: loading_state where
  "idle_loading = \<lparr>isLoading = False, currentBatch = 0, totalBatches = 0, matchesFound = 0\<rparr>"

definition initial_state :: search_state where
  "initial_state =
     \<lparr>searchTerm = [], loading = False, error = None, element = None, recentSearches = [],
      matchingElements = [], isPartialSearch = False, loadingState = idle_loading\<rparr>"

definition initial_fulltext_state :: fulltext_state where
  "initial_fulltext_state =
     \<lparr>ft_searchTerm = [], ft_loading = False, ft_error = None, ft_element = None,
      ft_matchingElements = [], ft_isPartialSearch = False, ft_recentSearches = []\<rparr>"

section \<open>Properties of the edit distance\<close>

lemma fold_upt_invariant:
  assumes "a \<le> b" and "I a t"
    and "\<And>k u. a \<le> k \<Longrightarrow> k < b \<Longrightarrow> I k u \<Longrightarrow> I (Suc k) (f k u)"
  shows "I b (fold f [a..<b] t)"
  using assms
proof (induction b)
  case 0
  then show ?case by simp
next
  case (Suc b)
  show ?case
  proof (cases "a = Suc b")
    case True
    with Suc.prems(2) show ?thesis by simp
  next
    case False
    with Suc.prems(1) have ab: "a \<le> b" by simp
    have "I b (fold f [a..<b] t)"
      using ab Suc.prems(2) Suc.prems(3) by (intro Suc.IH) auto
    then have "I (Suc b) (f b (fold f [a..<b] t))"
      using ab by (intro Suc.prems(3)) auto
    then show ?thesis using ab by simp
  qed
qed

lemma well_formed_set_cell:
  "well_formed m n track \<Longrightarrow> well_formed m n (set_cell j i v track)"
  by (cases "j < length track")
     (auto simp: well_formed_def set_cell_def nth_list_update list_update_beyond)

lemma cell_set_cell:
  "well_formed m n track \<Longrightarrow> j \<le> m \<Longrightarrow> i \<le> n \<Longrightarrow>
   cell (set_cell j i v track) j' i' = (if j' = j \<and> i' = i then v else cell track j' i')"
  by (auto simp: well_formed_def set_cell_def cell_def nth_list_update)

lemma well_formed_replicate:
  "well_formed m n (replicate (m + 1) (replicate (n + 1) 0))"
  by (auto simp: well_formed_def nth_replicate simp del: replicate_Suc)

lemma init_row0:
  "row0_done m n (n + 1)
     (fold (\<lambda>i. set_cell 0 i i) [0..<n + 1] (replicate (m + 1) (replicate (n + 1) 0)))"
proof (rule fold_upt_invariant [where I = "row0_done m n"])
  show "row0_done m n 0 (replicate (m + 1) (replicate (n + 1) 0))"
    using well_formed_replicate by (simp add: row0_done_def)
next
  fix k u
  assume "k < n + 1" and "row0_done m n k u"
  then show "row0_done m n (Suc k) (set_cell 0 k k u)"
    by (auto simp: row0_done_def well_formed_set_cell cell_set_cell less_Suc_eq)
qed simp

lemma init_col0:
  assumes "row0_done m n (n + 1) track"
  shows "col0_done m n (m + 1) (fold (\<lambda>j. set_cell j 0 j) [0..<m + 1] track)"
proof (rule fold_upt_invariant [where I = "col0_done m n"])
  show "col0_done m n 0 track"
    using assms by (simp add: row0_done_def col0_done_def)
next
  fix k u
  assume "k < m + 1" and "col0_done m n k u"
  then show "col0_done m n (Suc k) (set_cell k 0 k u)"
    by (auto simp: col0_done_def well_formed_set_cell cell_set_cell less_Suc_eq)
qed simp

lemma lev_rec_col0: "lev_rec s1 s2 j 0 = j"
  by (cases j) simp_all

lemma fill_cell_step:
  assumes "cells_done s1 s2 j k track" and "1 \<le> j" and "j \<le> length s2"
    and "1 \<le> k" and "k < length s1 + 1"
  shows "cells_done s1 s2 j (Suc k) (fill_cell s1 s2 j k track)"
proof -
  obtain j' k' where j: "j = Suc j'" and k: "k = Suc k'"
    using assms(2,4) by (metis One_nat_def Suc_le_D)
  have wf: "well_formed (length s2) (length s1) track"
    using assms(1) by (simp add: cells_done_def rows_done_def)
  have left: "cell track j (k - 1) = lev_rec s1 s2 j k'"
    using assms(1) k by (simp add: cells_done_def)
  have up: "cell track (j - 1) k = lev_rec s1 s2 j' k"
    using assms(1,5) j by (simp add: cells_done_def rows_done_def)
  have diag: "cell track (j - 1) (k - 1) = lev_rec s1 s2 j' k'"
    using assms(1,5) j k by (simp add: cells_done_def rows_done_def)
  have new: "cell (fill_cell s1 s2 j k track) j k = lev_rec s1 s2 j k"
    unfolding fill_cell_def using wf assms(3,5) left up diag
    by (simp add: cell_set_cell indicator_def j k)
  have old: "cell (fill_cell s1 s2 j k track) a b = cell track a b" if "a \<noteq> j \<or> b \<noteq> k" for a b
    unfolding fill_cell_def using wf assms(3,5) that by (auto simp: cell_set_cell)
  have wf': "well_formed (length s2) (length s1) (fill_cell s1 s2 j k track)"
    unfolding fill_cell_def using wf by (rule well_formed_set_cell)
  show ?thesis
    unfolding cells_done_def rows_done_def
  proof (intro conjI allI impI)
    show "well_formed (length s2) (length s1) (fill_cell s1 s2 j k track)" by (rule wf')
  next
    fix a b assume "a < j" "b \<le> length s1"
    then show "cell (fill_cell s1 s2 j k track) a b = lev_rec s1 s2 a b"
      using assms(1) old[of a b] by (simp add: cells_done_def rows_done_def)
  next
    fix a assume "a \<le> length s2"
    then show "cell (fill_cell s1 s2 j k track) a 0 = a"
      using assms(1,4) old[of a 0] by (simp add: cells_done_def rows_done_def)
  next
    fix b assume "b < Suc k"
    then show "cell (fill_cell s1 s2 j k track) j b = lev_rec s1 s2 j b"
      using assms(1) old[of j b] new by (cases "b = k") (simp_all add: cells_done_def)
  qed
qed

lemma fill_row_step:
  assumes "rows_done s1 s2 j track" and "1 \<le> j" and "j < length s2 + 1"
  shows "rows_done s1 s2 (Suc j) (fill_row s1 s2 j track)"
proof -
  have "cells_done s1 s2 j (length s1 + 1) (fold (fill_cell s1 s2 j) [1..<length s1 + 1] track)"
  proof (rule fold_upt_invariant [where I = "cells_done s1 s2 j"])
    show "cells_done s1 s2 j 1 track"
      using assms(1,3) by (simp add: cells_done_def rows_done_def lev_rec_col0)
  next
    fix k u
    assume "1 \<le> k" "k < length s1 + 1" "cells_done s1 s2 j k u"
    then show "cells_done s1 s2 j (Suc k) (fill_cell s1 s2 j k u)"
      using assms(2,3) by (intro fill_cell_step) auto
  qed simp
  then have filled: "cells_done s1 s2 j (length s1 + 1) (fill_row s1 s2 j track)"
    by (simp add: fill_row_def)
  show ?thesis
    unfolding rows_done_def
  proof (intro conjI allI impI)
    show "well_formed (length s2) (length s1) (fill_row s1 s2 j track)"
      using filled by (simp add: cells_done_def rows_done_def)
  next
    fix a b assume "a < Suc j" "b \<le> length s1"
    then show "cell (fill_row s1 s2 j track) a b = lev_rec s1 s2 a b"
      using filled by (cases "a = j") (simp_all add: cells_done_def rows_done_def)
  next
    fix a assume "a \<le> length s2"
    then show "cell (fill_row s1 s2 j track) a 0 = a"
      using filled by (simp add: cells_done_def rows_done_def)
  qed
qed

lemma levenshteinDistance_lev_rec:
  "levenshteinDistance s1 s2 = lev_rec s1 s2 (length s2) (length s1)"
proof -
  define track2 where "track2 =
    fold (\<lambda>j. set_cell j 0 j) [0..<length s2 + 1]
      (fold (\<lambda>i. set_cell 0 i i) [0..<length s1 + 1]
        (replicate (length s2 + 1) (replicate (length s1 + 1) 0)))"
  have "col0_done (length s2) (length s1) (length s2 + 1) track2"
    unfolding track2_def by (intro init_col0 init_row0)
  then have start: "rows_done s1 s2 1 track2"
    by (auto simp: col0_done_def rows_done_def)
  have "rows_done s1 s2 (length s2 + 1) (fold (fill_row s1 s2) [1..<length s2 + 1] track2)"
  proof (rule fold_upt_invariant [where I = "rows_done s1 s2"])
    show "rows_done s1 s2 1 track2" by (rule start)
  next
    fix k u
    assume "1 \<le> k" "k < length s2 + 1" "rows_done s1 s2 k u"
    then show "rows_done s1 s2 (Suc k) (fill_row s1 s2 k u)"
      by (intro fill_row_step)
  qed simp
  then have "cell (fold (fill_row s1 s2) [1..<length s2 + 1] track2) (length s2) (length s1)
             = lev_rec s1 s2 (length s2) (length s1)"
    by (simp add: rows_done_def)
  then show ?thesis
    by (simp add: levenshteinDistance_def track2_def Let_def)
qed

lemma lev_rec_sym: "lev_rec s1 s2 j i = lev_rec s2 s1 i j"
proof (induction s1 s2 j i rule: lev_rec.induct)
  case (1 s1 s2 i)
  then show ?case by (simp add: lev_rec_col0)
next
  case (2 s1 s2 j)
  then show ?case by simp
next
  case (3 s1 s2 j i)
  then show ?case by (simp add: min.commute min.left_commute eq_commute)
qed

lemma lev_rec_refl: "lev_rec s s k k = 0"
  by (induction k) simp_all

text \<open>
  Claim C7. The edit distance of a string to itself is 0, the distance is symmetric in
  its two arguments, and the distance between "kitten" and "sitting" is 3.
\<close>

theorem levenshteinDistance_laws:
  "levenshteinDistance a a = 0 \<and>
   levenshteinDistance a b = levenshteinDistance b a \<and>
   levenshteinDistance ''kitten'' ''sitting'' = 3"
proof (intro conjI)
  show "levenshteinDistance a a = 0"
    by (simp add: levenshteinDistance_lev_rec lev_rec_refl)
  show "levenshteinDistance a b = levenshteinDistance b a"
    unfolding levenshteinDistance_lev_rec by (rule lev_rec_sym)
  show "levenshteinDistance ''kitten'' ''sitting'' = 3"
    by code_simp
qed

section \<open>Properties of the token-based relevance\<close>

lemma calculateRelevance_tokens_exact:
  "name e = Some n \<Longrightarrow> toLowerCase n = toLowerCase q \<Longrightarrow>
   calculateRelevance_tokens e q = Inr 1000"
  by (simp add: calculateRelevance_tokens_def)

lemma partScore_bounds: "0 \<le> partScore best \<and> partScore best \<le> 100"
proof (cases best)
  case (enat n)
  have "n = 0 \<or> n = 1 \<or> n = 2 \<or> 2 < n" by arith
  then show ?thesis
    using enat by (auto simp: partScore_def zero_enat_def numeral_eq_enat)
next
  case infinity
  then show ?thesis by (simp add: partScore_def zero_enat_def numeral_eq_enat)
qed

lemma token_sum_bounds:
  "0 \<le> acc \<Longrightarrow>
   0 \<le> fold (\<lambda>searchPart score. score + partScore (bestPartDistance parts searchPart)) qs acc \<and>
   fold (\<lambda>searchPart score. score + partScore (bestPartDistance parts searchPart)) qs acc
     \<le> acc + 100 * of_nat (length qs)"
proof (induction qs arbitrary: acc)
  case Nil
  then show ?case by simp
next
  case (Cons a qs)
  have b: "0 \<le> partScore (bestPartDistance parts a) \<and> partScore (bestPartDistance parts a) \<le> 100"
    by (rule partScore_bounds)
  then have "0 \<le> acc + partScore (bestPartDistance parts a)"
    using Cons.prems by simp
  from Cons.IH [OF this] b show ?case
    by (simp add: algebra_simps)
qed

lemma calculateRelevance_tokens_bound:
  assumes "name e = Some n" and "toLowerCase n \<noteq> toLowerCase q"
  shows "\<exists>s. calculateRelevance_tokens e q = Inr s \<and>
             s \<le> 100 * of_nat (length (split_str CHR ''_'' (toLowerCase q))) + 500"
proof -
  define s1 where "s1 =
    fold (\<lambda>searchPart score. score +
            partScore (bestPartDistance (split_str CHR ''_'' (toLowerCase n)) searchPart))
      (split_str CHR ''_'' (toLowerCase q)) 0"
  have s1: "0 \<le> s1 \<and> s1 \<le> 100 * of_nat (length (split_str CHR ''_'' (toLowerCase q)))"
    unfolding s1_def
    using token_sum_bounds [of 0 "split_str CHR ''_'' (toLowerCase n)"
        "split_str CHR ''_'' (toLowerCase q)"]
    by simp
  have damp: "x * (1 / 10) \<le> x" if "0 \<le> x" for x :: rat
    using that by simp
  have damp0: "0 \<le> x * (1 / 10)" if "0 \<le> x" for x :: rat
    using that by simp
  show ?thesis
    using assms s1 damp [of s1] damp [of "s1 + 500"] damp [of "s1 * (1 / 10)"]
      damp [of "(s1 + 500) * (1 / 10)"] damp0 [of s1] damp0 [of "s1 + 500"]
    by (simp add: calculateRelevance_tokens_def Let_def flip: s1_def)
qed

lemma calculateRelevance_tokens_nameless:
  "name e = None \<Longrightarrow> calculateRelevance_tokens e q = Inl TypeError"
  by (simp add: calculateRelevance_tokens_def)

text \<open>
  Claim C1, at the input where the code departs from it. The element \<open>a_b_c_d_e_f_g\<close> is
  not an exact match of the query \<open>a_b_c_d_e_f\<close>: each of the six query tokens matches a
  token of the name (600), the name starts with the query and an underscore (500), and no
  dampening applies. Its score, 1100, is above the score 1000 of the exact match.
\<close>

theorem calculateRelevance_tokens_above_sentinel:
  "toLowerCase ''a_b_c_d_e_f_g'' \<noteq> toLowerCase ''a_b_c_d_e_f'' \<and>
   calculateRelevance_tokens
     \<lparr>name = Some ''a_b_c_d_e_f_g'', etype = None, description = None\<rparr>
     ''a_b_c_d_e_f'' = Inr 1100 \<and>
   calculateRelevance_tokens
     \<lparr>name = Some ''a_b_c_d_e_f'', etype = None, description = None\<rparr>
     ''a_b_c_d_e_f'' = Inr 1000"
  by code_simp

section \<open>Properties of word-boundary matching\<close>

lemma isWordChar_toLowerChar: "isWordChar (toLowerChar c) = isWordChar c"
  by (auto simp: isWordChar_def toLowerChar_def Let_def)

lemma list_all_isWordChar_toLowerCase:
  "list_all isWordChar (toLowerCase s) = list_all isWordChar s"
  by (induction s) (simp_all add: toLowerCase_def isWordChar_toLowerChar)

lemma length_toLowerCase: "length (toLowerCase s) = length s"
  by (simp add: toLowerCase_def)

lemma same_lower_word:
  assumes "toLowerCase m = toLowerCase w"
  shows "list_all isWordChar m = list_all isWordChar w" and "length m = length w"
  using assms list_all_isWordChar_toLowerCase [of m] list_all_isWordChar_toLowerCase [of w]
    length_toLowerCase [of m] length_toLowerCase [of w]
  by simp_all

lemma takeWhile_run:
  assumes "list_all P m" and "post = [] \<or> \<not> P (hd post)"
  shows "takeWhile P (m @ post) = m"
proof -
  have "takeWhile P post = []"
    using assms(2) by (cases post) auto
  moreover have "takeWhile P (m @ post) = m @ takeWhile P post"
    using assms(1) by (intro takeWhile_append2) (simp add: list_all_iff)
  ultimately show ?thesis by simp
qed

lemma dropWhile_after:
  assumes "pre \<noteq> []" and "\<not> P (last pre)"
  shows "dropWhile P (pre @ ys) = dropWhile P pre @ ys"
    and "dropWhile P pre \<noteq> []" and "last (dropWhile P pre) = last pre"
proof -
  have mem: "last pre \<in> set pre"
    using assms(1) by simp
  show "dropWhile P (pre @ ys) = dropWhile P pre @ ys"
    using mem assms(2) by (rule dropWhile_append1)
  show ne: "dropWhile P pre \<noteq> []"
    using mem assms(2) by (auto simp: dropWhile_eq_Nil_conv)
  have "last pre = last (takeWhile P pre @ dropWhile P pre)"
    by simp
  also have "\<dots> = last (dropWhile P pre)"
    using ne by (rule last_appendR)
  finally show "last (dropWhile P pre) = last pre" by simp
qed

lemma delimitedWordI:
  "m \<noteq> [] \<Longrightarrow> list_all isWordChar m \<Longrightarrow> str = pre @ m @ post \<Longrightarrow>
   pre = [] \<or> \<not> isWordChar (last pre) \<Longrightarrow> post = [] \<or> \<not> isWordChar (hd post) \<Longrightarrow>
   delimitedWord str m"
  unfolding delimitedWord_def by blast

lemma delimitedWordE:
  assumes "delimitedWord str m"
  obtains pre post where "m \<noteq> []" and "list_all isWordChar m" and "str = pre @ m @ post"
    and "pre = [] \<or> \<not> isWordChar (last pre)" and "post = [] \<or> \<not> isWordChar (hd post)"
  using assms unfolding delimitedWord_def by blast

lemma wordsOf_iff: "m \<in> set (wordsOf str) \<longleftrightarrow> delimitedWord str m"
proof (induction str rule: wordsOf.induct)
  case 1
  show ?case by (auto simp: delimitedWord_def)
next
  case (2 c cs)
  show ?case
  proof (cases "isWordChar c")
    case False
    have "delimitedWord (c # cs) m \<longleftrightarrow> delimitedWord cs m"
    proof
      assume "delimitedWord (c # cs) m"
      then obtain pre post where m: "m \<noteq> []" "list_all isWordChar m"
        and d: "c # cs = pre @ m @ post"
        and b: "pre = [] \<or> \<not> isWordChar (last pre)" "post = [] \<or> \<not> isWordChar (hd post)"
        by (rule delimitedWordE)
      have "pre \<noteq> []"
      proof
        assume "pre = []"
        with d m(1) have "hd m = c" by (cases m) auto
        with m False show False by (cases m) auto
      qed
      then obtain pre' where pre: "pre = c # pre'"
        using d by (cases pre) auto
      have "cs = pre' @ m @ post" using d pre by simp
      moreover have "pre' = [] \<or> \<not> isWordChar (last pre')"
        using b(1) pre by (cases "pre' = []") auto
      ultimately show "delimitedWord cs m" using m b(2) by (intro delimitedWordI)
    next
      assume "delimitedWord cs m"
      then obtain pre post where m: "m \<noteq> []" "list_all isWordChar m"
        and d: "cs = pre @ m @ post"
        and b: "pre = [] \<or> \<not> isWordChar (last pre)" "post = [] \<or> \<not> isWordChar (hd post)"
        by (rule delimitedWordE)
      have "c # cs = (c # pre) @ m @ post" using d by simp
      moreover have "c # pre = [] \<or> \<not> isWordChar (last (c # pre))"
        using b(1) False by (cases "pre = []") auto
      ultimately show "delimitedWord (c # cs) m" using m b(2) by (intro delimitedWordI)
    qed
    then show ?thesis using False "2.IH"(2) by simp
  next
    case True
    define run where "run = takeWhile isWordChar (c # cs)"
    define rest where "rest = dropWhile isWordChar cs"
    have whole: "c # cs = run @ rest"
      using True by (simp add: run_def rest_def)
    have run: "run \<noteq> []" "list_all isWordChar run"
      using True by (auto simp: run_def list_all_iff dest: set_takeWhileD)
    have rest: "rest = [] \<or> \<not> isWordChar (hd rest)"
      unfolding rest_def using hd_dropWhile [of isWordChar cs] by blast
    have IH: "m \<in> set (wordsOf rest) \<longleftrightarrow> delimitedWord rest m"
      using "2.IH"(1) [OF True] by (simp add: rest_def)
    have L: "m \<in> set (wordsOf (c # cs)) \<longleftrightarrow> m = run \<or> m \<in> set (wordsOf rest)"
      using True by (auto simp: run_def rest_def)
    have "delimitedWord (c # cs) m \<longleftrightarrow> m = run \<or> delimitedWord rest m"
    proof
      assume "delimitedWord (c # cs) m"
      then obtain pre post where m: "m \<noteq> []" "list_all isWordChar m"
        and d: "c # cs = pre @ m @ post"
        and b: "pre = [] \<or> \<not> isWordChar (last pre)" "post = [] \<or> \<not> isWordChar (hd post)"
        by (rule delimitedWordE)
      show "m = run \<or> delimitedWord rest m"
      proof (cases "pre = []")
        case True
        then have "c # cs = m @ post" using d by simp
        then have "run = m"
          unfolding run_def using takeWhile_run [OF m(2) b(2)] by simp
        then show ?thesis by simp
      next
        case False
        with b(1) have nw: "\<not> isWordChar (last pre)" by simp
        have "rest = dropWhile isWordChar (c # cs)"
          using True by (simp add: rest_def)
        also have "\<dots> = dropWhile isWordChar pre @ m @ post"
          unfolding d using dropWhile_after(1) [of pre isWordChar "m @ post", OF False nw] by simp
        finally have "rest = dropWhile isWordChar pre @ m @ post" .
        moreover have "dropWhile isWordChar pre = [] \<or> \<not> isWordChar (last (dropWhile isWordChar pre))"
          using dropWhile_after(3) [of pre isWordChar, OF False nw] nw by simp
        ultimately have "delimitedWord rest m" using m b(2) by (intro delimitedWordI)
        then show ?thesis by simp
      qed
    next
      assume "m = run \<or> delimitedWord rest m"
      then show "delimitedWord (c # cs) m"
      proof
        assume "m = run"
        then have "c # cs = [] @ m @ rest" using whole by simp
        then show ?thesis using run rest \<open>m = run\<close> by (intro delimitedWordI) auto
      next
        assume "delimitedWord rest m"
        then obtain pre post where m: "m \<noteq> []" "list_all isWordChar m"
          and d: "rest = pre @ m @ post"
          and b: "pre = [] \<or> \<not> isWordChar (last pre)" "post = [] \<or> \<not> isWordChar (hd post)"
          by (rule delimitedWordE)
        have "pre \<noteq> []"
        proof
          assume "pre = []"
          with d m(1) have "rest \<noteq> []" "hd rest = hd m" by (cases m; simp)+
          moreover have "isWordChar (hd m)" using m by (cases m) auto
          ultimately show False using rest by simp
        qed
        with b(1) have "run @ pre = [] \<or> \<not> isWordChar (last (run @ pre))" by simp
        moreover have "c # cs = (run @ pre) @ m @ post" using whole d by simp
        ultimately show ?thesis using m b(2) by (intro delimitedWordI)
      qed
    qed
    then show ?thesis using L IH by simp
  qed
qed

lemma containsLiteralWord_iff:
  "containsLiteralWord str w \<longleftrightarrow> (\<exists>p \<le> length str. matchesAt str w p)"
proof -
  have "set [0..<length str + 1] = {p. p \<le> length str}"
    by auto
  then show ?thesis
    by (simp add: containsLiteralWord_def list_ex_iff)
qed

lemma matchesAt_delimited:
  assumes "matchesAt str w p" and "w \<noteq> []" and "list_all isWordChar w"
  shows "\<exists>m. delimitedWord str m \<and> toLowerCase m = toLowerCase w"
proof -
  define pre where "pre = take p str"
  define m where "m = take (length w) (drop p str)"
  define post where "post = drop (length w) (drop p str)"
  have len: "p + length w \<le> length str"
    and b1: "atBoundary str p"
    and low: "toLowerCase m = toLowerCase w"
    and b2: "atBoundary str (p + length w)"
    using assms(1) by (simp_all add: matchesAt_def m_def)
  have "drop p str = m @ post"
    unfolding m_def post_def by (rule append_take_drop_id [symmetric])
  then have "pre @ m @ post = take p str @ drop p str"
    by (simp only: pre_def)
  then have whole: "str = pre @ m @ post"
    by (simp only: append_take_drop_id)
  have post: "post = drop (p + length w) str"
    by (simp add: post_def add.commute)
  have lm: "length m = length w"
    using len by (simp add: m_def)
  have lp: "length pre = p"
    using len by (simp add: pre_def)
  have m: "m \<noteq> []" "list_all isWordChar m"
    using same_lower_word [OF low] assms(2,3) by auto
  have "(pre @ m @ post) ! length pre = hd m"
    using m(1) by (simp add: nth_append hd_conv_nth)
  then have at_p: "str ! p = hd m"
    by (simp only: lp flip: whole)
  have "isWordChar (hd m)"
    using m by (cases m) auto
  then have "p < length str \<and> isWordChar (str ! p)"
    using at_p len assms(2) by (cases w) auto
  with b1 have left: "\<not> (0 < p \<and> isWordChar (str ! (p - 1)))"
    by (simp add: atBoundary_def)
  have pre_ok: "pre = [] \<or> \<not> isWordChar (last pre)"
  proof (cases "pre = []")
    case False
    then have "0 < p" using lp by auto
    moreover have "(pre @ m @ post) ! (length pre - 1) = last pre"
      using False by (simp add: nth_append last_conv_nth)
    then have "last pre = str ! (p - 1)"
      by (simp only: lp flip: whole)
    ultimately show ?thesis using left by simp
  qed simp
  have "(pre @ m @ post) ! (length pre + (length m - 1)) = last m"
    using m(1) by (simp add: nth_append last_conv_nth)
  moreover have "length pre + (length m - 1) = p + length w - 1"
    using m(1) lp lm by (cases m) auto
  ultimately have "str ! (p + length w - 1) = last m"
    by (simp only: flip: whole)
  moreover have "isWordChar (last m)"
    using m by (simp add: list_all_iff)
  ultimately have "0 < p + length w \<and> isWordChar (str ! (p + length w - 1))"
    using assms(2) by simp
  with b2 have right: "\<not> (p + length w < length str \<and> isWordChar (str ! (p + length w)))"
    by (simp add: atBoundary_def)
  have post_ok: "post = [] \<or> \<not> isWordChar (hd post)"
  proof (cases "post = []")
    case False
    then have "p + length w < length str"
      by (simp add: post)
    moreover from this have "hd post = str ! (p + length w)"
      by (simp add: post hd_drop_conv_nth)
    ultimately show ?thesis using right by simp
  qed simp
  have "delimitedWord str m"
    using m whole pre_ok post_ok by (rule delimitedWordI)
  then show ?thesis using low by blast
qed

lemma delimited_matchesAt:
  assumes "delimitedWord str m" and "toLowerCase m = toLowerCase w"
  shows "\<exists>p \<le> length str. matchesAt str w p"
proof -
  obtain pre post where m: "m \<noteq> []" "list_all isWordChar m"
    and whole: "str = pre @ m @ post"
    and b: "pre = [] \<or> \<not> isWordChar (last pre)" "post = [] \<or> \<not> isWordChar (hd post)"
    using assms(1) by (rule delimitedWordE)
  have lm: "length m = length w"
    using same_lower_word(2) [OF assms(2)] .
  have seg: "take (length w) (drop (length pre) str) = m"
    by (simp add: whole lm [symmetric])
  have first: "str ! length pre = hd m"
    using m(1) whole by (simp add: nth_append hd_conv_nth)
  have "isWordChar (hd m)"
    using m by (cases m) auto
  have prev: "\<not> (0 < length pre \<and> isWordChar (str ! (length pre - 1)))"
  proof (cases "pre = []")
    case False
    then have "str ! (length pre - 1) = last pre"
      by (simp add: whole nth_append last_conv_nth)
    then show ?thesis using b(1) False by simp
  qed simp
  have b1: "atBoundary str (length pre)"
    using prev first \<open>isWordChar (hd m)\<close> m(1) whole by (simp add: atBoundary_def)
  have lastm: "str ! (length pre + length w - 1) = last m"
  proof -
    have "length pre + length w - 1 = length pre + (length m - 1)"
      using m(1) lm by (cases m) auto
    then have "str ! (length pre + length w - 1) = (m @ post) ! (length m - 1)"
      by (simp add: whole)
    also have "\<dots> = last m"
      using m(1) by (simp add: nth_append last_conv_nth)
    finally show ?thesis .
  qed
  have "isWordChar (last m)"
    using m by (simp add: list_all_iff)
  have nxt: "\<not> (length pre + length w < length str \<and> isWordChar (str ! (length pre + length w)))"
  proof (cases "post = []")
    case True
    then show ?thesis by (simp add: whole lm)
  next
    case False
    have "str ! (length pre + length w) = (m @ post) ! length m"
      by (simp add: whole lm)
    also have "\<dots> = hd post"
      using False by (simp add: nth_append hd_conv_nth)
    finally show ?thesis using b(2) False by simp
  qed
  have "w \<noteq> []"
    using m(1) lm by auto
  then have b2: "atBoundary str (length pre + length w)"
    using nxt lastm \<open>isWordChar (last m)\<close> by (simp add: atBoundary_def)
  have "matchesAt str w (length pre)"
    unfolding matchesAt_def using b1 b2 seg assms(2) by (simp add: whole lm)
  moreover have "length pre \<le> length str"
    by (simp add: whole)
  ultimately show ?thesis by blast
qed

lemma containsLiteralWord_iff_word:
  assumes "w \<noteq> []" and "list_all isWordChar w"
  shows "containsLiteralWord str w \<longleftrightarrow> toLowerCase w \<in> toLowerCase ` set (wordsOf str)"
proof
  assume "containsLiteralWord str w"
  then obtain p where "matchesAt str w p"
    by (auto simp: containsLiteralWord_iff)
  from matchesAt_delimited [OF this assms]
  obtain m where "delimitedWord str m" "toLowerCase m = toLowerCase w" by blast
  then show "toLowerCase w \<in> toLowerCase ` set (wordsOf str)"
    by (metis imageI wordsOf_iff)
next
  assume "toLowerCase w \<in> toLowerCase ` set (wordsOf str)"
  then obtain m where "m \<in> set (wordsOf str)" "toLowerCase m = toLowerCase w"
    by auto
  then have "delimitedWord str m"
    by (simp add: wordsOf_iff)
  from delimited_matchesAt [OF this \<open>toLowerCase m = toLowerCase w\<close>]
  show "containsLiteralWord str w"
    by (simp add: containsLiteralWord_iff)
qed

lemma endsWith_s: "endsWith t ''s'' \<longleftrightarrow> t \<noteq> [] \<and> last t = CHR ''s''"
proof (cases "rev t")
  case Nil
  then show ?thesis by (simp add: endsWith_def)
next
  case (Cons c cs)
  then have "t = rev cs @ [c]" by (metis rev_rev_ident rev.simps(2))
  then show ?thesis using Cons by (simp add: endsWith_def)
qed

lemma isWordChar_not_syntax: "isWordChar c \<Longrightarrow> \<not> isSyntaxChar c"
  by (auto simp: isWordChar_def isSyntaxChar_def)

lemma containsWord_literal:
  "list_all isWordChar w \<Longrightarrow> containsWord rx str w = Inr (containsLiteralWord str w)"
  by (auto simp: containsWord_def list_ex_iff list_all_iff isWordChar_not_syntax)

lemma containsWord_word:
  assumes "w \<noteq> []" and "list_all isWordChar w"
  shows "containsWord rx str w = Inr (toLowerCase w \<in> toLowerCase ` set (wordsOf str))"
  using containsLiteralWord_iff_word [OF assms] containsWord_literal [OF assms(2)] by simp

lemma someWord_all_return:
  "\<forall>w \<in> set ws. containsWord rx str w = Inr (P w) \<Longrightarrow>
   someWord rx str ws = Inr (\<exists>w \<in> set ws. P w)"
  by (induction ws) auto

lemma matchesWords_iff_word:
  assumes "t \<noteq> []" and "list_all isWordChar t" and "t \<noteq> ''s''"
  shows "matchesWords rx str t =
         Inr (\<exists>w \<in> set (searchWords t). toLowerCase w \<in> toLowerCase ` set (wordsOf str))"
proof -
  have s: "isWordChar CHR ''s''"
    by (simp add: isWordChar_def)
  have "w \<noteq> [] \<and> list_all isWordChar w" if "w \<in> set (searchWords t)" for w
  proof (cases "endsWith t ''s''")
    case True
    then have "last t = CHR ''s''" by (simp add: endsWith_s)
    with assms(1,3) have "butlast t \<noteq> []"
      by (metis append_butlast_last_id append_Nil)
    moreover have "list_all isWordChar (butlast t)"
      using assms(2) by (auto simp: list_all_iff dest: in_set_butlastD)
    ultimately show ?thesis
      using that True assms(1,2) by (auto simp: searchWords_def)
  next
    case False
    then show ?thesis
      using that assms(1,2) s by (auto simp: searchWords_def)
  qed
  then have "\<forall>w \<in> set (searchWords t).
               containsWord rx str w = Inr (toLowerCase w \<in> toLowerCase ` set (wordsOf str))"
    using containsWord_word by blast
  then show ?thesis
    unfolding matchesWords_def by (rule someWord_all_return)
qed

text \<open>
  Claim C4, at the input where the code departs from it. For the query \<open>s\<close> the singular
  form is the empty string; the pattern of the empty string matches at any word boundary,
  so the text \<open>age\<close> matches although its only word is \<open>age\<close>. The two instances the
  claim names hold: \<open>tap\<close> does not match the word \<open>tapping\<close> and matches the word \<open>taps\<close>.
  None of these words holds pattern syntax, so the results are those of every engine.
  For every other search term made of word characters the match is the one the claim
  describes (\<open>matchesWords_iff_word\<close>).
\<close>

theorem matchesWords_single_s:
  "searchWords ''s'' = [''s'', ''''] \<and>
   matchesWords rx ''age'' ''s'' = Inr True \<and>
   wordsOf ''age'' = [''age''] \<and>
   matchesWords rx ''finger tapping test'' ''tap'' = Inr False \<and>
   matchesWords rx ''taps'' ''tap'' = Inr True"
  by code_simp

section \<open>Properties of the aggregation\<close>

lemma calculateRelevance_match_lower:
  "case calculateRelevance_match e q mt of
     Inl ex \<Rightarrow> ex = TypeError \<and> name e = None
   | Inr score \<Rightarrow> 15 \<le> score \<and> name e \<noteq> None"
  by (cases mt; cases "name e") (auto simp: calculateRelevance_match_def Let_def min_def)

lemma calculateRelevance_match_returns:
  "calculateRelevance_match e q mt = Inr score \<Longrightarrow> 15 \<le> score \<and> name e \<noteq> None"
  using calculateRelevance_match_lower [of e q mt] by simp

lemma matchRecordFor_Some:
  "matchRecordFor rx t sn e = Inr (Some r) \<Longrightarrow> name e = Some (mr_name r) \<and> 15 \<le> relevance r"
  by (auto simp: matchRecordFor_def Let_def split: sum.splits if_splits
           dest!: calculateRelevance_match_returns)

lemma set_update_subset: "set (AList.update k v al) \<subseteq> insert (k, v) (set al)"
  by (induction al) auto

lemma found_ok_update:
  "found_ok found \<Longrightarrow> mr_name r = k \<Longrightarrow> 15 \<le> relevance r \<Longrightarrow>
   found_ok (AList.update k r found)"
  unfolding found_ok_def using set_update_subset [of k r found]
  by (auto simp: distinct_update)

lemma scanElement_writes:
  "scanElement rx t sn e found =
     (case matchRecordFor rx t sn e of
        Inl ex \<Rightarrow> Inl ex
      | Inr None \<Rightarrow> Inr found
      | Inr (Some r) \<Rightarrow> Inr (AList.update (mr_name r) r found))"
  by (auto simp: scanElement_def split: sum.splits option.splits dest!: matchRecordFor_Some)

lemma found_ok_scanElement:
  "found_ok found \<Longrightarrow> scanElement rx t sn e found = Inr found' \<Longrightarrow> found_ok found'"
  by (auto simp: scanElement_writes found_ok_update split: sum.splits option.splits
           dest!: matchRecordFor_Some)

lemma found_ok_scanElements:
  "found_ok found \<Longrightarrow> found_ok (fst (scanElements rx t sn es found))"
  by (induction es arbitrary: found) (auto split: sum.splits dest: found_ok_scanElement)

lemma found_ok_scanStructures:
  "found_ok found \<Longrightarrow> found_ok (fst (scanStructures rx t brs found))"
proof (induction brs arbitrary: found)
  case Nil
  then show ?case by simp
next
  case (Cons br brs)
  have ok: "found_ok (fst (scanElements rx t (fst br) (snd br) found))"
    using Cons.prems by (rule found_ok_scanElements)
  show ?case
  proof (cases "scanElements rx t (fst br) (snd br) found")
    case (Pair found' thrown')
    then show ?thesis
      using ok Cons.IH [of found'] by (cases thrown') simp_all
  qed
qed

lemma scanStructures_append:
  "scanStructures rx t (xs @ ys) found =
     (case scanStructures rx t xs found of
        (found', Some ex) \<Rightarrow> (found', Some ex)
      | (found', None) \<Rightarrow> scanStructures rx t ys found')"
  by (induction xs arbitrary: found) (auto split: prod.splits option.splits)

lemma structureCache_processBatch:
  "structureCache (processBatch env t i batch st) =
     fold (storeStructure env (structureCache st)) batch (structureCache st)"
  by (simp add: processBatch_def Let_def)

lemma scanned_processBatch:
  "(foundElements (processBatch env t i batch st), thrown (processBatch env t i batch st)) =
     scanStructures (regexp env) t
       (List.map_filter (fetchStructure env (structureCache st)) batch) (foundElements st)"
  by (simp add: processBatch_def Let_def)

lemma scanned_processBatches:
  "thrown st = None \<Longrightarrow>
   (foundElements (processBatches env t i batches st),
    thrown (processBatches env t i batches st)) =
     scanStructures (regexp env) t (retrievedBatches env (structureCache st) batches)
       (foundElements st)"
proof (induction batches arbitrary: i st)
  case Nil
  then show ?case by simp
next
  case (Cons batch batches)
  define st1 where "st1 = processBatch env t i batch st"
  have first: "scanStructures (regexp env) t
                 (List.map_filter (fetchStructure env (structureCache st)) batch)
                 (foundElements st) = (foundElements st1, thrown st1)"
    unfolding st1_def by (simp add: scanned_processBatch)
  have cache: "structureCache st1
                 = fold (storeStructure env (structureCache st)) batch (structureCache st)"
    unfolding st1_def by (rule structureCache_processBatch)
  show ?case
  proof (cases "thrown st1")
    case None
    from Cons.IH [OF None, of "i + 1"] show ?thesis
      using None first
      by (simp add: scanStructures_append cache flip: st1_def)
  next
    case (Some ex)
    then show ?thesis
      using first by (simp add: scanStructures_append flip: st1_def)
  qed
qed

lemma scanned_processBatches_parts:
  assumes "thrown st = None"
  shows "foundElements (processBatches env t i batches st) =
           fst (scanStructures (regexp env) t (retrievedBatches env (structureCache st) batches)
                  (foundElements st))"
    and "thrown (processBatches env t i batches st) =
           snd (scanStructures (regexp env) t (retrievedBatches env (structureCache st) batches)
                  (foundElements st))"
  using scanned_processBatches [OF assms, of env t i batches, THEN arg_cong, of fst]
    scanned_processBatches [OF assms, of env t i batches, THEN arg_cong, of snd]
  by simp_all

lemma snd_fep_rest:
  "discover env (toLowerCase term) = Some us \<Longrightarrow>
   snd (fep_rest env term prev) =
     (processBatches env (toLowerCase term) 0 (batchesOf us)
        \<lparr>foundElements = [], structureCache = Map.empty,
         requests = [SearchStructures (toLowerCase term), ListCategory ''cognitive_task''],
         progress = prev\<lparr>totalBatches := length (batchesOf us)\<rparr>, thrown = None\<rparr>)
     \<lparr>progress :=
        (progress (processBatches env (toLowerCase term) 0 (batchesOf us)
           \<lparr>foundElements = [], structureCache = Map.empty,
            requests = [SearchStructures (toLowerCase term), ListCategory ''cognitive_task''],
            progress = prev\<lparr>totalBatches := length (batchesOf us)\<rparr>, thrown = None\<rparr>))
        \<lparr>isLoading := False\<rparr>\<rparr>"
  by (simp add: fep_rest_def Let_def split: option.splits)

lemma scanned_fep_rest:
  "foundElements (snd (fep_rest env term prev)) =
     fst (scanStructures (regexp env) (toLowerCase term) (elementsByStructure env term) [])"
  "thrown (snd (fep_rest env term prev)) =
     (case discover env (toLowerCase term) of
        None \<Rightarrow> Some FetchRejected
      | Some uniqueStructures \<Rightarrow>
          snd (scanStructures (regexp env) (toLowerCase term) (elementsByStructure env term) []))"
proof -
  show "foundElements (snd (fep_rest env term prev)) =
     fst (scanStructures (regexp env) (toLowerCase term) (elementsByStructure env term) [])"
  proof (cases "discover env (toLowerCase term)")
    case None
    then show ?thesis
      by (simp add: fep_rest_def elementsByStructure_def Let_def)
  next
    case (Some us)
    show ?thesis
      by (simp add: snd_fep_rest [OF Some] scanned_processBatches_parts elementsByStructure_def
            Some)
  qed
  show "thrown (snd (fep_rest env term prev)) =
     (case discover env (toLowerCase term) of
        None \<Rightarrow> Some FetchRejected
      | Some uniqueStructures \<Rightarrow>
          snd (scanStructures (regexp env) (toLowerCase term) (elementsByStructure env term) []))"
  proof (cases "discover env (toLowerCase term)")
    case None
    then show ?thesis
      by (simp add: fep_rest_def Let_def)
  next
    case (Some us)
    show ?thesis
      by (simp add: snd_fep_rest [OF Some] scanned_processBatches_parts elementsByStructure_def
            Some)
  qed
qed

lemma fst_fep_rest:
  "fst (fep_rest env term prev) =
     (case thrown (snd (fep_rest env term prev)) of
        None \<Rightarrow> sortByRelevance (map snd (foundElements (snd (fep_rest env term prev))))
      | Some ex \<Rightarrow> map snd (foundElements (snd (fep_rest env term prev))))"
  by (simp add: fep_rest_def Let_def split: option.splits)

lemma fst_fep_rest_independent: "fst (fep_rest env term prev) = fst (fep_rest env term prev')"
proof -
  have "foundElements (snd (fep_rest env term prev))
          = foundElements (snd (fep_rest env term prev'))"
    and "thrown (snd (fep_rest env term prev)) = thrown (snd (fep_rest env term prev'))"
    by (simp_all only: scanned_fep_rest)
  then show ?thesis
    by (simp only: fst_fep_rest [of env "term" prev] fst_fep_rest [of env "term" prev'])
qed

lemma found_ok_fep_rest: "found_ok (foundElements (snd (fep_rest env term prev)))"
  unfolding scanned_fep_rest
  by (rule found_ok_scanStructures) (simp add: found_ok_def)

text \<open>
  The requests of a call do not depend on the loading state it starts from: two runs
  that agree on the locals agree on them after every batch.
\<close>

lemma processBatches_same_locals:
  assumes "foundElements st = foundElements st'"
    and "structureCache st = structureCache st'"
    and "requests st = requests st'"
  shows "requests (processBatches env t i batches st)
           = requests (processBatches env t i batches st')"
  using assms
proof (induction batches arbitrary: i st st')
  case Nil
  then show ?case by simp
next
  case (Cons batch batches)
  let ?a = "processBatch env t i batch st" and ?b = "processBatch env t i batch st'"
  have same: "foundElements ?a = foundElements ?b" "structureCache ?a = structureCache ?b"
    "requests ?a = requests ?b" "thrown ?a = thrown ?b"
    using Cons.prems by (simp_all add: processBatch_def Let_def)
  show ?case
  proof (cases "thrown ?a")
    case None
    then show ?thesis
      using same Cons.IH [OF same(1-3), of "i + 1"] by (simp add: Let_def)
  next
    case (Some ex)
    then show ?thesis
      using same by (simp add: Let_def)
  qed
qed

lemma findElementsByPattern_requests_repeat:
  "requests (snd (findElementsByPattern env term prev'))
     = requests (snd (findElementsByPattern env term prev))"
proof (cases "discover env (toLowerCase term)")
  case None
  then show ?thesis
    by (simp add: findElementsByPattern_def fep_rest_def Let_def)
next
  case (Some us)
  show ?thesis
    unfolding findElementsByPattern_def
    by (simp add: snd_fep_rest [OF Some]) (rule processBatches_same_locals, simp_all)
qed

lemma set_sortByRelevance: "set (sortByRelevance rs) = set rs"
  by (simp add: sortByRelevance_def)







text \<open>
  The scan as a sequence of writes: the entries of \<open>foundElements\<close> are the writes made
  up to the first exception, and the scan throws exactly where an attempt does.
\<close>

lemma map_filter_append:
  "List.map_filter f (xs @ ys) = List.map_filter f xs @ List.map_filter f ys"
  by (simp add: List.map_filter_def)

lemma scanElements_writes:
  "scanElements rx t sn es found =
     (fold (\<lambda>(k, r). AList.update k r)
        (List.map_filter written (takeWhile (\<lambda>a. \<not> isl a) (map (matchRecordFor rx t sn) es)))
        found,
      if list_ex isl (map (matchRecordFor rx t sn) es)
      then Some (projl (hd (dropWhile (\<lambda>a. \<not> isl a) (map (matchRecordFor rx t sn) es))))
      else None)"
proof (induction es arbitrary: found)
  case Nil
  show ?case by (simp add: List.map_filter_simps)
next
  case (Cons e es)
  show ?case
  proof (cases "matchRecordFor rx t sn e")
    case (Inl ex)
    then show ?thesis
      by (simp add: scanElement_writes List.map_filter_simps)
  next
    case (Inr m)
    then show ?thesis
      using Cons.IH
      by (cases m) (simp_all add: scanElement_writes List.map_filter_simps written_def)
  qed
qed

lemma scanStructures_writes:
  "fst (scanStructures rx t brs found) =
     fold (\<lambda>(k, r). AList.update k r) (writes rx t brs) found"
proof (induction brs arbitrary: found)
  case Nil
  show ?case by (simp add: writes_def attempts_def List.map_filter_simps)
next
  case (Cons br brs)
  let ?as = "map (matchRecordFor rx t (fst br)) (snd br)"
  have attempts: "attempts rx t (br # brs) = ?as @ attempts rx t brs"
    by (simp add: attempts_def)
  show ?case
  proof (cases "list_ex isl ?as")
    case True
    then obtain a where "a \<in> set ?as" "isl a"
      by (auto simp: list_ex_iff)
    then have "takeWhile (\<lambda>a. \<not> isl a) (?as @ attempts rx t brs)
               = takeWhile (\<lambda>a. \<not> isl a) ?as"
      by (intro takeWhile_append1 [of a]) simp_all
    then have "writes rx t (br # brs)
               = List.map_filter written (takeWhile (\<lambda>a. \<not> isl a) ?as)"
      by (simp only: writes_def attempts)
    then show ?thesis
      using True by (simp add: scanElements_writes)
  next
    case False
    then have all: "\<And>a. a \<in> set ?as \<Longrightarrow> \<not> isl a"
      by (auto simp: list_ex_iff)
    then have "takeWhile (\<lambda>a. \<not> isl a) (?as @ attempts rx t brs)
               = ?as @ takeWhile (\<lambda>a. \<not> isl a) (attempts rx t brs)"
      by (intro takeWhile_append2) simp
    then have split: "writes rx t (br # brs) = List.map_filter written ?as @ writes rx t brs"
      by (simp only: writes_def attempts map_filter_append)
    have "takeWhile (\<lambda>a. \<not> isl a) ?as = ?as"
      using all by (simp add: takeWhile_eq_all_conv)
    then have "scanElements rx t (fst br) (snd br) found
               = (fold (\<lambda>(k, r). AList.update k r) (List.map_filter written ?as) found, None)"
      using False by (simp only: scanElements_writes if_False)
    then have "fst (scanStructures rx t (br # brs) found)
               = fst (scanStructures rx t brs
                   (fold (\<lambda>(k, r). AList.update k r) (List.map_filter written ?as) found))"
      by simp
    also have "\<dots> = fold (\<lambda>(k, r). AList.update k r) (writes rx t brs)
                   (fold (\<lambda>(k, r). AList.update k r) (List.map_filter written ?as) found)"
      by (rule Cons.IH)
    also have "\<dots> = fold (\<lambda>(k, r). AList.update k r) (writes rx t (br # brs)) found"
      by (simp only: split fold_append comp_def)
    finally show ?thesis .
  qed
qed


lemma result_cases:
  "fst (fep_rest env term prev)
     = sortByRelevance (map snd (foundElements (snd (fep_rest env term prev)))) \<or>
   fst (fep_rest env term prev) = map snd (foundElements (snd (fep_rest env term prev)))"
  by (cases "thrown (snd (fep_rest env term prev))") (simp_all add: fst_fep_rest [of env "term" prev])

text \<open>
  A search term whose pattern the engine refuses: the first element scanned throws,
  with nothing found yet, and the result list is empty.
\<close>

lemma matchRecordFor_bad_pattern:
  "list_ex isSyntaxChar t \<Longrightarrow> rx t = None \<Longrightarrow> matchRecordFor rx t sn e = Inl SyntaxError"
  by (simp add: matchRecordFor_def matchesWords_def searchWords_def containsWord_def Let_def)

lemma writes_bad_pattern:
  assumes "list_ex isSyntaxChar t" and "rx t = None"
  shows "writes rx t brs = []"
proof -
  have "\<forall>a \<in> set (attempts rx t brs). isl a"
    by (auto simp: attempts_def matchRecordFor_bad_pattern [of t rx, OF assms])
  then have "takeWhile (\<lambda>a. \<not> isl a) (attempts rx t brs) = []"
    by (cases "attempts rx t brs") simp_all
  then show ?thesis
    by (simp add: writes_def List.map_filter_simps)
qed

lemma findElementsByPattern_bad_pattern:
  assumes "list_ex isSyntaxChar (toLowerCase term)" and "regexp env (toLowerCase term) = None"
  shows "fst (findElementsByPattern env term prev) = []"
proof -
  have "foundElements (snd (fep_rest env term (fep_start prev))) = []"
    by (simp add: scanned_fep_rest scanStructures_writes writes_bad_pattern [of "toLowerCase term" "regexp env", OF assms])
  then show ?thesis
    using result_cases [of env "term" "fep_start prev"]
    by (auto simp: findElementsByPattern_def sortByRelevance_def)
qed


text \<open>
  Where the call throws nothing, its result list is in descending order of relevance,
  and the records of any one relevance stand in the order in which \<open>foundElements\<close>
  holds them, the order of discovery. In every case the list is the same whatever
  loading state the call starts from.
\<close>

lemma findElementsByPattern_sorted_unless_thrown:
  assumes "thrown (snd (findElementsByPattern env term prev)) = None"
  shows "sorted_wrt (\<lambda>a b. relevance b \<le> relevance a)
           (fst (findElementsByPattern env term prev))"
    and "filter (\<lambda>r. relevance r = k) (fst (findElementsByPattern env term prev))
           = filter (\<lambda>r. relevance r = k)
               (map snd (foundElements (snd (findElementsByPattern env term prev))))"
proof -
  let ?found = "map snd (foundElements (snd (findElementsByPattern env term prev)))"
  have res: "fst (findElementsByPattern env term prev) = sortByRelevance ?found"
    using assms fst_fep_rest [of env "term" "fep_start prev"]
    by (simp add: findElementsByPattern_def)
  have "sorted (map (\<lambda>r. - relevance r) (sortByRelevance ?found))"
    by (simp add: sortByRelevance_def)
  then show "sorted_wrt (\<lambda>a b. relevance b \<le> relevance a)
               (fst (findElementsByPattern env term prev))"
    unfolding res by (simp add: sorted_map)
  have "filter (\<lambda>r. - relevance r = - k) (sortByRelevance ?found)
        = filter (\<lambda>r. - relevance r = - k) ?found"
    unfolding sortByRelevance_def by (rule sort_key_stable)
  then show "filter (\<lambda>r. relevance r = k) (fst (findElementsByPattern env term prev))
     = filter (\<lambda>r. relevance r = k) ?found"
    unfolding res by simp
qed

lemma findElementsByPattern_repeatable:
  "fst (findElementsByPattern env term prev') = fst (findElementsByPattern env term prev)"
  unfolding findElementsByPattern_def by (rule fst_fep_rest_independent)

text \<open>
  Claim C10. The relevance \<open>calculateRelevance\<close> gives is at least 15 for every element
  that has a name, every term and every match type (the base score is at least 25, the
  two bonuses add, and the length penalty is at most 10), and for an element without a
  name it gives none; so the relevance of every record of a result list is at least 15.
\<close>

theorem findElementsByPattern_scores:
  "(case calculateRelevance_match e q mt of
      Inl ex \<Rightarrow> ex = TypeError \<and> name e = None
    | Inr score \<Rightarrow> 15 \<le> score \<and> name e \<noteq> None) \<and>
   (\<forall>r \<in> set (fst (findElementsByPattern env term prev)). 15 \<le> relevance r)"
proof
  show "case calculateRelevance_match e q mt of
          Inl ex \<Rightarrow> ex = TypeError \<and> name e = None
        | Inr score \<Rightarrow> 15 \<le> score \<and> name e \<noteq> None"
    by (rule calculateRelevance_match_lower)
  let ?found = "foundElements (snd (fep_rest env term (fep_start prev)))"
  have "found_ok ?found"
    by (rule found_ok_fep_rest)
  then have "\<forall>r \<in> set (map snd ?found). 15 \<le> relevance r"
    unfolding found_ok_def by fastforce
  moreover have "set (fst (fep_rest env term (fep_start prev))) = set (map snd ?found)"
    using result_cases [of env "term" "fep_start prev"] by (metis set_sortByRelevance)
  ultimately show "\<forall>r \<in> set (fst (findElementsByPattern env term prev)). 15 \<le> relevance r"
    unfolding findElementsByPattern_def by simp
qed

section \<open>The small catalog, evaluated\<close>

lemma demo_taps:
  "(case findElementsByPattern demo_env ''taps'' idle_loading of
      (rs, st) \<Rightarrow> (rs, requests st, structureCache st ''ft01'', thrown st)) =
     ([\<lparr>mr_name = ''taps'', mr_type = ''Unknown'', mr_description = ''No description available'',
        structure = ''ft02'', matchType = Name, relevance = 150\<rparr>,
       \<lparr>mr_name = ''tap_count'', mr_type = ''Integer'', mr_description = ''Count per tap'',
        structure = ''ft02'', matchType = Description, relevance = 20\<rparr>],
      [SearchStructures ''taps'', ListCategory ''cognitive_task'', GetStructure ''ft01'',
       GetStructure ''ft02''],
      Some [\<lparr>name = Some ''tap_count'', etype = Some ''Integer'',
              description = Some ''Number of taps''\<rparr>,
            \<lparr>name = Some ''subjectkey'', etype = Some ''GUID'',
              description = Some ''Subject GUID''\<rparr>],
      None)"
  by code_simp

lemma demo_taps_results:
  "fst (findElementsByPattern demo_env ''taps'' prev) =
     [\<lparr>mr_name = ''taps'', mr_type = ''Unknown'', mr_description = ''No description available'',
        structure = ''ft02'', matchType = Name, relevance = 150\<rparr>,
       \<lparr>mr_name = ''tap_count'', mr_type = ''Integer'', mr_description = ''Count per tap'',
        structure = ''ft02'', matchType = Description, relevance = 20\<rparr>]"
proof -
  have "fst (findElementsByPattern demo_env ''taps'' prev)
        = fst (findElementsByPattern demo_env ''taps'' idle_loading)"
    by (rule findElementsByPattern_repeatable)
  then show ?thesis
    using demo_taps by (simp split: prod.splits)
qed

lemma demo_taps_requests:
  "requests (snd (findElementsByPattern demo_env ''taps'' prev)) =
     [SearchStructures ''taps'', ListCategory ''cognitive_task'', GetStructure ''ft01'',
      GetStructure ''ft02'']"
proof -
  have "requests (snd (findElementsByPattern demo_env ''taps'' prev))
        = requests (snd (findElementsByPattern demo_env ''taps'' idle_loading))"
    by (rule findElementsByPattern_requests_repeat)
  then show ?thesis
    using demo_taps by (simp split: prod.splits)
qed

lemma demo_taps_cache:
  "structureCache (snd (findElementsByPattern demo_env ''taps'' idle_loading)) ''ft01'' \<noteq> None"
  using demo_taps by (simp split: prod.splits)

lemma demo_zzz: "fst (findElementsByPattern demo_env ''zzz'' idle_loading) = []"
  by code_simp

lemma demo_zzz_results: "fst (findElementsByPattern demo_env ''zzz'' prev) = []"
proof -
  have "fst (findElementsByPattern demo_env ''zzz'' prev)
        = fst (findElementsByPattern demo_env ''zzz'' idle_loading)"
    by (rule findElementsByPattern_repeatable)
  then show ?thesis by (simp add: demo_zzz)
qed

lemma demo_trim: "trim ''taps'' = ''taps'' \<and> trim ''zzz'' = ''zzz'' \<and> trim ''  '' = []"
  by code_simp

lemma demo_dataelement: "dataelement demo_env n = NotOk"
  by (simp add: demo_env_def)

theorem findElementsByPattern_scores_witness:
  "\<lparr>mr_name = ''tap_count'', mr_type = ''Integer'', mr_description = ''Count per tap'',
     structure = ''ft02'', matchType = Description, relevance = 20\<rparr>
     \<in> set (fst (findElementsByPattern demo_env ''taps'' idle_loading)) \<and>
   (15::int) \<le> relevance \<lparr>mr_name = ''tap_count'', mr_type = ''Integer'',
     mr_description = ''Count per tap'', structure = ''ft02'', matchType = Description,
     relevance = 20\<rparr>"
  using findElementsByPattern_scores [of _ _ _ demo_env "''taps''" idle_loading]
  by (simp add: demo_taps_results)

text \<open>
  Claim C2, at the input where the code departs from it. \<open>structureCache\<close> is a local of
  \<open>findElementsByPattern\<close>, created empty by every call. The first search for \<open>taps\<close>
  fetches the structure \<open>ft01\<close> and stores its two elements in its cache; the second
  search of the session starts from an empty cache and fetches \<open>ft01\<close> again: two fetches
  of one identifier.
\<close>

theorem structure_fetched_again:
  "structureCache (snd (findElementsByPattern demo_env ''taps'' idle_loading)) ''ft01'' \<noteq> None \<and>
   count_list
     (requests (snd (findElementsByPattern demo_env ''taps'' idle_loading)) @
      requests (snd (findElementsByPattern demo_env ''taps''
                   (progress (snd (findElementsByPattern demo_env ''taps'' idle_loading))))))
     (GetStructure ''ft01'') = 2"
  by (simp add: demo_taps_cache demo_taps_requests)

lemma nameless_taps:
  "(case findElementsByPattern nameless_env ''taps'' idle_loading of
      (rs, st) \<Rightarrow> (rs, thrown st)) =
     ([\<lparr>mr_name = ''tap_count'', mr_type = ''Integer'', mr_description = ''Count per tap'',
        structure = ''ft02'', matchType = Description, relevance = 20\<rparr>,
       \<lparr>mr_name = ''taps'', mr_type = ''Unknown'', mr_description = ''No description available'',
        structure = ''ft02'', matchType = Name, relevance = 150\<rparr>],
      Some TypeError)"
  by code_simp

text \<open>
  Claim C6, at the input where the code departs from it. The scan tolerates an element
  without a name (\<open>element.name || ""\<close>), the scorer does not: when such an element
  matches by its description, \<open>calculateRelevance\<close> throws, and the \<open>catch\<close> branch returns
  the values of \<open>foundElements\<close> as they stand, without the sort of the regular return.
  On the catalog whose structure \<open>ft02\<close> lists such an element after \<open>taps\<close> and
  \<open>tap_count\<close>, the search for \<open>taps\<close> returns \<open>tap_count\<close> (relevance 20) before \<open>taps\<close>
  (relevance 150): the list is not in descending order of relevance. Where nothing is
  thrown the list is sorted and stable (\<open>findElementsByPattern_sorted_unless_thrown\<close>),
  and in every case a second run returns the same list
  (\<open>findElementsByPattern_repeatable\<close>).
\<close>

theorem findElementsByPattern_unsorted_after_exception:
  "thrown (snd (findElementsByPattern nameless_env ''taps'' idle_loading)) = Some TypeError \<and>
   map (\<lambda>r. (mr_name r, relevance r))
     (fst (findElementsByPattern nameless_env ''taps'' idle_loading))
     = [(''tap_count'', 20), (''taps'', 150)] \<and>
   \<not> sorted_wrt (\<lambda>a b. relevance b \<le> relevance a)
       (fst (findElementsByPattern nameless_env ''taps'' idle_loading))"
  using nameless_taps by (simp split: prod.splits)

section \<open>Properties of the orchestration\<close>

lemma startsWith_append: "startsWith (t @ s) t"
  by (induction t) simp_all

lemma startsWith_includes: "startsWith s t \<Longrightarrow> includes_str s t"
  by (cases s; cases t) simp_all

lemma includes_str_append: "includes_str (a @ t @ b) t"
proof (induction a)
  case Nil
  show ?case using startsWith_includes [OF startsWith_append [of t b]] by simp
next
  case (Cons c a)
  then show ?case by simp
qed

lemma noMatchMessage_includes: "includes_str (noMatchMessage q) q"
  unfolding noMatchMessage_def by (rule includes_str_append)

lemma noMatch_state:
  assumes "trim (searchTerm st) \<noteq> []"
    and "dataelement env (trim (searchTerm st)) = NotOk"
    and "fst (findElementsByPattern env (trim (searchTerm st)) (loadingState st)) = []"
  shows "fst (handlePartialSearch env st) =
           st\<lparr>loading := False, error := Some (noMatchMessage (searchTerm st)),
              isPartialSearch := True, matchingElements := [], element := None,
              loadingState :=
                progress (snd (findElementsByPattern env (trim (searchTerm st)) (loadingState st)))\<rparr>"
  using assms
  by (simp add: handlePartialSearch_def hps_retrieved_def hps_directMiss_def hps_begin_def
        capture_def findElementsByPattern_def Let_def split: prod.splits)

text \<open>
  Claim C3, as amended. A search whose exact lookup misses and whose aggregation is empty
  ends with loading off, no element, no matching elements and the error message that
  quotes the search term as typed; the recent-search history is left as it was.
\<close>

theorem handlePartialSearch_noMatch:
  assumes "trim (searchTerm st) \<noteq> []"
    and "dataelement env (trim (searchTerm st)) = NotOk"
    and "fst (findElementsByPattern env (trim (searchTerm st)) (loadingState st)) = []"
  shows "fst (handlePartialSearch env st) =
           st\<lparr>loading := False, error := Some (noMatchMessage (searchTerm st)),
              isPartialSearch := True, matchingElements := [], element := None,
              loadingState :=
                progress (snd (findElementsByPattern env (trim (searchTerm st)) (loadingState st)))\<rparr>
         \<and> includes_str (noMatchMessage (searchTerm st)) (searchTerm st)
         \<and> recentSearches (fst (handlePartialSearch env st)) = recentSearches st"
  using noMatch_state [OF assms] noMatchMessage_includes [of "searchTerm st"]
  by simp

theorem handlePartialSearch_noMatch_witness:
  "trim (searchTerm (initial_state\<lparr>searchTerm := ''zzz''\<rparr>)) \<noteq> [] \<and>
   error (fst (handlePartialSearch demo_env (initial_state\<lparr>searchTerm := ''zzz''\<rparr>)))
     = Some (noMatchMessage ''zzz'') \<and>
   recentSearches (fst (handlePartialSearch demo_env (initial_state\<lparr>searchTerm := ''zzz''\<rparr>)))
     = []"
proof -
  let ?st = "initial_state\<lparr>searchTerm := ''zzz''\<rparr>"
  have a: "trim (searchTerm ?st) \<noteq> []"
    by (simp add: demo_trim)
  have b: "dataelement demo_env (trim (searchTerm ?st)) = NotOk"
    by (rule demo_dataelement)
  have c: "fst (findElementsByPattern demo_env (trim (searchTerm ?st)) (loadingState ?st)) = []"
    by (simp add: demo_trim demo_zzz_results)
  show ?thesis
    using a handlePartialSearch_noMatch [OF a b c] by (simp add: initial_state_def)
qed

text \<open>
  Claim C3 as stated fails: the search for \<open>zzz\<close> misses the exact lookup, finds no
  element and ends with the message that quotes \<open>zzz\<close>, and \<open>zzz\<close> is not in the
  recent-search history afterwards.
\<close>

theorem noMatch_not_recorded:
  "dataelement demo_env (trim ''zzz'') = NotOk \<and>
   fst (findElementsByPattern demo_env (trim ''zzz'') idle_loading) = [] \<and>
   error (fst (handlePartialSearch demo_env (initial_state\<lparr>searchTerm := ''zzz''\<rparr>)))
     = Some (noMatchMessage ''zzz'') \<and>
   ''zzz'' \<notin> set (recentSearches
       (fst (handlePartialSearch demo_env (initial_state\<lparr>searchTerm := ''zzz''\<rparr>))))"
proof -
  let ?st = "initial_state\<lparr>searchTerm := ''zzz''\<rparr>"
  have a: "trim (searchTerm ?st) \<noteq> []"
    by (simp add: demo_trim)
  have b: "dataelement demo_env (trim (searchTerm ?st)) = NotOk"
    by (rule demo_dataelement)
  have c: "fst (findElementsByPattern demo_env (trim (searchTerm ?st)) (loadingState ?st)) = []"
    by (simp add: demo_trim demo_zzz_results)
  show ?thesis
    using noMatch_state [OF a b c]
    by (simp add: initial_state_def demo_trim demo_zzz_results demo_dataelement)
qed

text \<open>
  Claim C9. Where the search term is empty or white space only, \<open>handleSearch\<close> and
  \<open>handlePartialSearch\<close> of the pattern search, and \<open>handleSearch\<close> of the full-text
  search, return the state they were given and issue no request.
\<close>

theorem blank_query_noop:
  assumes "trim (searchTerm st) = []" and "trim (ft_searchTerm st') = []"
  shows "handleSearch env st = (st, []) \<and> handlePartialSearch env st = (st, []) \<and>
         handleSearch_fulltext env' st' = (st', [])"
  using assms by (simp add: handleSearch_def handlePartialSearch_def handleSearch_fulltext_def)

theorem blank_query_noop_witness:
  "trim (searchTerm (initial_state\<lparr>searchTerm := ''  ''\<rparr>)) = [] \<and>
   handleSearch demo_env (initial_state\<lparr>searchTerm := ''  ''\<rparr>)
     = (initial_state\<lparr>searchTerm := ''  ''\<rparr>, []) \<and>
   handleSearch_fulltext \<lparr>ft_dataelement = (\<lambda>n. NotOk), fullTextSearch = (\<lambda>q. NotOk)\<rparr>
       (initial_fulltext_state\<lparr>ft_searchTerm := ''  ''\<rparr>)
     = (initial_fulltext_state\<lparr>ft_searchTerm := ''  ''\<rparr>, [])"
proof -
  have blank: "trim (searchTerm (initial_state\<lparr>searchTerm := ''  ''\<rparr>)) = []"
    by (simp add: demo_trim)
  have blank': "trim (ft_searchTerm (initial_fulltext_state\<lparr>ft_searchTerm := ''  ''\<rparr>)) = []"
    by (simp add: demo_trim)
  show ?thesis
    using blank blank_query_noop [OF blank blank', of demo_env
        "\<lparr>ft_dataelement = (\<lambda>n. NotOk), fullTextSearch = (\<lambda>q. NotOk)\<rparr>"]
    by simp
qed

lemma searchTerm_hps_retrieved: "searchTerm (fst (hps_retrieved env cl st)) = searchTerm st"
  by (simp add: hps_retrieved_def Let_def remember_def split: response.splits)

lemma searchTerm_handlePartialSearch:
  "searchTerm (fst (handlePartialSearch env st)) = searchTerm st"
proof (cases "trim (searchTerm st) = []")
  case True
  then show ?thesis by (simp add: handlePartialSearch_def)
next
  case False
  show ?thesis
  proof (cases "dataelement env (trim (searchTerm st))")
    case (Rejected msg)
    then show ?thesis
      using False by (simp add: handlePartialSearch_def hps_failed_def hps_begin_def)
  next
    case NotOk
    have "fst (handlePartialSearch env st)
          = fst (hps_retrieved env (capture st) (hps_directMiss (hps_begin st)))"
      using False NotOk by (simp add: handlePartialSearch_def Let_def split: prod.splits)
    then show ?thesis
      by (simp add: searchTerm_hps_retrieved hps_directMiss_def hps_begin_def)
  next
    case (Ok data)
    then show ?thesis
      using False
      by (simp add: handlePartialSearch_def hps_directHit_def hps_begin_def remember_def Let_def)
  qed
qed

lemma matchingElements_hps_retrieved:
  assumes "fst (fep_rest env (trim (c_searchTerm cl)) (loadingState st)) \<noteq> []"
  shows "matchingElements (fst (hps_retrieved env cl st))
         = fst (fep_rest env (trim (c_searchTerm cl)) (loadingState st))"
  using assms by (simp add: hps_retrieved_def Let_def remember_def split: response.splits)

lemma hps_retrieved_several:
  assumes "fst (fep_rest env (trim (c_searchTerm cl)) (loadingState st)) \<noteq> []"
    and "length (fst (fep_rest env (trim (c_searchTerm cl)) (loadingState st))) \<noteq> 1"
  shows "fst (hps_retrieved env cl st) =
           st\<lparr>loadingState :=
                 progress (snd (fep_rest env (trim (c_searchTerm cl)) (loadingState st))),
              matchingElements := fst (fep_rest env (trim (c_searchTerm cl)) (loadingState st)),
              loading := False\<rparr>"
  using assms by (simp add: hps_retrieved_def Let_def)

lemma overlappingSearches_final:
  assumes "fst (findElementsByPattern env (trim qA) (loadingState st)) \<noteq> []"
  shows "matchingElements (overlappingSearches env qA qB st)
           = fst (findElementsByPattern env (trim qA) (loadingState st))"
    and "searchTerm (overlappingSearches env qA qB st) = qB"
    and "length (fst (findElementsByPattern env (trim qA) (loadingState st))) \<noteq> 1 \<Longrightarrow>
         overlappingSearches env qA qB st =
           (overtakingSearch env qA qB st)
             \<lparr>loadingState :=
                progress (snd (fep_rest env (trim qA)
                                 (loadingState (overtakingSearch env qA qB st)))),
              matchingElements := fst (findElementsByPattern env (trim qA) (loadingState st)),
              loading := False\<rparr>"
proof -
  define sA where "sA = st\<lparr>searchTerm := qA\<rparr>"
  define s2 where "s2 = overtakingSearch env qA qB st"
  have run: "overlappingSearches env qA qB st = fst (hps_retrieved env (capture sA) s2)"
    by (simp add: overlappingSearches_def sA_def s2_def Let_def)
  have qA: "trim (c_searchTerm (capture sA)) = trim qA"
    by (simp add: capture_def sA_def)
  have same: "fst (fep_rest env (trim qA) (loadingState s2))
              = fst (findElementsByPattern env (trim qA) (loadingState st))"
    unfolding findElementsByPattern_def by (rule fst_fep_rest_independent)
  have nonempty: "fst (fep_rest env (trim (c_searchTerm (capture sA))) (loadingState s2)) \<noteq> []"
    using assms by (simp add: qA same)
  show "matchingElements (overlappingSearches env qA qB st)
        = fst (findElementsByPattern env (trim qA) (loadingState st))"
    unfolding run using matchingElements_hps_retrieved [OF nonempty] by (simp add: qA same)
  have "searchTerm (overlappingSearches env qA qB st) = searchTerm s2"
    unfolding run by (rule searchTerm_hps_retrieved)
  also have "\<dots> = qB"
    by (simp add: s2_def overtakingSearch_def Let_def searchTerm_handlePartialSearch)
  finally show "searchTerm (overlappingSearches env qA qB st) = qB" .
  show "overlappingSearches env qA qB st =
           (overtakingSearch env qA qB st)
             \<lparr>loadingState :=
                progress (snd (fep_rest env (trim qA)
                                 (loadingState (overtakingSearch env qA qB st)))),
              matchingElements := fst (findElementsByPattern env (trim qA) (loadingState st)),
              loading := False\<rparr>"
    if "length (fst (findElementsByPattern env (trim qA) (loadingState st))) \<noteq> 1"
  proof -
    have several:
      "length (fst (fep_rest env (trim (c_searchTerm (capture sA))) (loadingState s2))) \<noteq> 1"
      using that by (simp add: qA same)
    show ?thesis
      unfolding run using hps_retrieved_several [OF nonempty several]
      by (simp add: qA same flip: s2_def)
  qed
qed

text \<open>
  Claim C8, as amended. The code tags no search with a generation and discards no
  result. In the schedule where search B is started while search A awaits the answers
  to its discovery requests (A's term is not blank and its exact lookup has missed) and
  B runs to its end before A resumes, search A, on ending with a result list that is
  not empty, stores its list as the matching elements in place of what B left, under
  B's search term. Where A's list has two records or more, the final state is the one
  B left but for the progress indicator, the matching elements and the loading flag.
\<close>

theorem overlappingSearches_last_completion_wins:
  assumes "trim qA \<noteq> []"
    and "dataelement env (trim qA) = NotOk"
    and "fst (findElementsByPattern env (trim qA) (loadingState st)) \<noteq> []"
  shows "matchingElements (overlappingSearches env qA qB st)
           = fst (findElementsByPattern env (trim qA) (loadingState st)) \<and>
         searchTerm (overlappingSearches env qA qB st) = qB \<and>
         (length (fst (findElementsByPattern env (trim qA) (loadingState st))) \<noteq> 1 \<longrightarrow>
          overlappingSearches env qA qB st =
            (overtakingSearch env qA qB st)
              \<lparr>loadingState :=
                 progress (snd (fep_rest env (trim qA)
                                  (loadingState (overtakingSearch env qA qB st)))),
               matchingElements := fst (findElementsByPattern env (trim qA) (loadingState st)),
               loading := False\<rparr>)"
  using overlappingSearches_final [OF assms(3), of qB] by blast

theorem overlappingSearches_witness:
  "trim ''taps'' \<noteq> [] \<and>
   dataelement demo_env (trim ''taps'') = NotOk \<and>
   fst (findElementsByPattern demo_env (trim ''taps'') (loadingState initial_state)) \<noteq> [] \<and>
   matchingElements (overlappingSearches demo_env ''taps'' ''subjectkey'' initial_state)
     = fst (findElementsByPattern demo_env (trim ''taps'') (loadingState initial_state)) \<and>
   searchTerm (overlappingSearches demo_env ''taps'' ''subjectkey'' initial_state) = ''subjectkey'' \<and>
   length (fst (findElementsByPattern demo_env (trim ''taps'') (loadingState initial_state))) = 2 \<and>
   isPartialSearch (overlappingSearches demo_env ''taps'' ''subjectkey'' initial_state)
     = isPartialSearch (overtakingSearch demo_env ''taps'' ''subjectkey'' initial_state) \<and>
   element (overlappingSearches demo_env ''taps'' ''subjectkey'' initial_state)
     = element (overtakingSearch demo_env ''taps'' ''subjectkey'' initial_state)"
proof -
  have a: "trim ''taps'' \<noteq> []"
    by (simp add: demo_trim)
  have b: "dataelement demo_env (trim ''taps'') = NotOk"
    by (rule demo_dataelement)
  have c: "fst (findElementsByPattern demo_env (trim ''taps'') (loadingState initial_state)) \<noteq> []"
    by (simp add: demo_trim demo_taps_results)
  have d: "length (fst (findElementsByPattern demo_env (trim ''taps'')
                          (loadingState initial_state))) = 2"
    by (simp add: demo_trim demo_taps_results)
  note run = overlappingSearches_last_completion_wins [OF a b c, of "''subjectkey''"]
  from run have m: "matchingElements
                      (overlappingSearches demo_env ''taps'' ''subjectkey'' initial_state)
      = fst (findElementsByPattern demo_env (trim ''taps'') (loadingState initial_state))"
    by (rule conjunct1)
  from run have s: "searchTerm
                      (overlappingSearches demo_env ''taps'' ''subjectkey'' initial_state)
      = ''subjectkey''"
    by blast
  from run d have "overlappingSearches demo_env ''taps'' ''subjectkey'' initial_state =
          (overtakingSearch demo_env ''taps'' ''subjectkey'' initial_state)
            \<lparr>loadingState :=
               progress (snd (fep_rest demo_env (trim ''taps'')
                  (loadingState (overtakingSearch demo_env ''taps'' ''subjectkey'' initial_state)))),
             matchingElements :=
               fst (findElementsByPattern demo_env (trim ''taps'') (loadingState initial_state)),
             loading := False\<rparr>"
    by simp
  then have "isPartialSearch (overlappingSearches demo_env ''taps'' ''subjectkey'' initial_state)
               = isPartialSearch (overtakingSearch demo_env ''taps'' ''subjectkey'' initial_state)"
    and "element (overlappingSearches demo_env ''taps'' ''subjectkey'' initial_state)
           = element (overtakingSearch demo_env ''taps'' ''subjectkey'' initial_state)"
    by simp_all
  with a b c d m s show ?thesis
    by (intro conjI)
qed

text \<open>
  Claim C8 as stated fails: search A for \<open>taps\<close> is overtaken by search B for \<open>zzz\<close>,
  which finds nothing and ends with its message; when A ends after B, the page shows,
  under B's search term and next to B's message, the list of the two records A found for
  \<open>taps\<close>.
\<close>

theorem stale_results_overwrite:
  "dataelement demo_env (trim ''taps'') = NotOk \<and>
   searchTerm (overlappingSearches demo_env ''taps'' ''zzz'' initial_state) = ''zzz'' \<and>
   error (overlappingSearches demo_env ''taps'' ''zzz'' initial_state)
     = Some (noMatchMessage ''zzz'') \<and>
   map mr_name (matchingElements (overlappingSearches demo_env ''taps'' ''zzz'' initial_state))
     = [''taps'', ''tap_count''] \<and>
   listShown (overlappingSearches demo_env ''taps'' ''zzz'' initial_state)"
proof -
  have a: "fst (findElementsByPattern demo_env (trim ''taps'') (loadingState initial_state)) \<noteq> []"
    by (simp add: demo_trim demo_taps_results)
  have a2: "length (fst (findElementsByPattern demo_env (trim ''taps'')
                           (loadingState initial_state))) \<noteq> 1"
    by (simp add: demo_trim demo_taps_results)
  let ?sB = "(hps_directMiss (hps_begin (initial_state\<lparr>searchTerm := ''taps''\<rparr>)))
               \<lparr>searchTerm := ''zzz''\<rparr>"
  have b: "trim (searchTerm ?sB) \<noteq> []"
    by (simp add: demo_trim)
  have c: "dataelement demo_env (trim (searchTerm ?sB)) = NotOk"
    by (rule demo_dataelement)
  have d: "fst (findElementsByPattern demo_env (trim (searchTerm ?sB)) (loadingState ?sB)) = []"
    by (simp add: demo_trim demo_zzz_results)
  have "overtakingSearch demo_env ''taps'' ''zzz'' initial_state
          = fst (handlePartialSearch demo_env ?sB)"
    by (simp add: overtakingSearch_def Let_def)
  then have endB: "error (overtakingSearch demo_env ''taps'' ''zzz'' initial_state)
                     = Some (noMatchMessage ''zzz'')"
    "isPartialSearch (overtakingSearch demo_env ''taps'' ''zzz'' initial_state)"
    by (simp_all add: noMatch_state [OF b c d])
  have fin: "error (overlappingSearches demo_env ''taps'' ''zzz'' initial_state)
               = Some (noMatchMessage ''zzz'')"
    "isPartialSearch (overlappingSearches demo_env ''taps'' ''zzz'' initial_state)"
    using endB by (simp_all add: overlappingSearches_final(3) [OF a a2, of "''zzz''"])
  show ?thesis
    using fin overlappingSearches_final(1,2) [OF a, of "''zzz''"]
    by (simp add: listShown_def demo_trim demo_taps_results demo_dataelement)
qed

end
